theory Spec2Isabelle
  imports Main "HOL-Library.Word" "HOL-Library.Sublist" "HOL-Library.Multiset"
begin

section \<open>The Huffman tree of \<open>huffman_tree-1.cpp\<close>\<close>

text \<open>
  Conventions of the embedding.
  \<^item> A C++ \<open>char\<close> is an Isabelle \<open>char\<close> (one byte). The program compares characters
    with \<open>0\<close> and stores \<open>-64\<close> in internal nodes, so it reads a \<open>char\<close> as a signed
    8-bit integer; \<open>schar\<close> is that reading.
  \<^item> A C++ \<open>int\<close> is a 32-bit word, read as a signed integer by \<open>sint\<close> and compared
    by \<open><s\<close>; \<open>+\<close> wraps around, as the compiled program does at \<open>2^31\<close>. A theorem
    that needs the counts or their sums to stay below \<open>2^31\<close> says so in a hypothesis.
    The \<open>unsigned int\<close> indices are positions in lists: the development is about lines
    and bit strings shorter than \<open>2^32\<close>.
  \<^item> A text file is \<open>string option\<close>: \<open>None\<close> when it cannot be opened, otherwise its
    bytes. \<open>getline\<close> is the standard library's \<open>std::getline\<close> followed by the
    program's test of \<open>file.good()\<close>.
  \<^item> A \<open>std::map\<close> with \<open>char\<close> keys is an association list in ascending (signed)
    key order, so that \<open>begin()\<close> is its head and \<open>size()\<close> its length.
  \<^item> A \<open>Node*\<close> is \<open>node option\<close>, \<open>None\<close> being \<open>nullptr\<close>. Nodes are never shared.
  \<^item> The \<open>std::priority_queue\<close> is the list of the nodes it holds. The standard fixes
    that \<open>top()\<close> is a node that no other node precedes under \<open>Compare\<close>, and leaves
    open which one among nodes of equal frequency: that choice is the parameter
    \<open>tie\<close>, a ranking of nodes consulted among equal frequencies. Each node is
    removed from the queue at most once, so every run of a conforming queue is the run
    for one such ranking (the time at which the node is removed). Every theorem below
    holds for every \<open>tie\<close>. \<open>top()\<close> of an empty queue is undefined in C++; the
    program guards each call, and the value the model gives it there is never used.
\<close>

subsection \<open>Characters\<close>

definition schar :: "char \<Rightarrow> int" where
  "schar c = sint (of_char c :: 8 word)"

abbreviation newline :: char where
  "newline \<equiv> CHR 0x0A"

subsection \<open>\<open>struct Node\<close>\<close>

type_synonym c_int = "32 word"

datatype node =
  Node (character: char) (frequency: c_int) (right: "node option") (left: "node option")

text \<open>\<open>Node(char character_ = -64, int frequency_ = 0)\<close>: both pointers null.\<close>

definition new_Node :: "char \<Rightarrow> c_int \<Rightarrow> node" where
  "new_Node c f = Node c f None None"

definition default_Node :: node where
  "default_Node = new_Node (CHR 0xC0) 0"

subsection \<open>\<open>std::map<char, V>\<close>\<close>

type_synonym 'v cmap = "(char \<times> 'v) list"

definition map_find :: "'v cmap \<Rightarrow> char \<Rightarrow> 'v option" where
  "map_find m k = map_of m k"

text \<open>\<open>emplace\<close> inserts at the key's place and leaves an existing entry untouched.\<close>

fun map_emplace :: "'v cmap \<Rightarrow> char \<Rightarrow> 'v \<Rightarrow> 'v cmap" where
  "map_emplace [] k v = [(k, v)]"
| "map_emplace ((k', v') # m) k v =
     (if k = k' then (k', v') # m
      else if schar k < schar k' then (k, v) # (k', v') # m
      else (k', v') # map_emplace m k v)"

text \<open>\<open>it->second += 1\<close> at the entry found for \<open>k\<close>.\<close>

fun map_incr :: "c_int cmap \<Rightarrow> char \<Rightarrow> c_int cmap" where
  "map_incr [] k = []"
| "map_incr ((k', v') # m) k =
     (if k = k' then (k', v' + 1) # m else (k', v') # map_incr m k)"

subsection \<open>Reading lines\<close>

text \<open>
  \<open>getline s\<close> on the unread rest \<open>s\<close> of the stream: \<open>None\<close> when the extraction
  fails (nothing left), otherwise the line without its terminator, whether the stream is
  still \<open>good()\<close> (the line ended at a line feed, not at the end of the file), and the
  new rest.
\<close>

definition getline :: "string \<Rightarrow> (string \<times> bool \<times> string) option" where
  "getline s =
     (if s = [] then None
      else (case dropWhile (\<lambda>c. c \<noteq> newline) s of
              [] \<Rightarrow> Some (takeWhile (\<lambda>c. c \<noteq> newline) s, False, [])
            | _ # rest \<Rightarrow> Some (takeWhile (\<lambda>c. c \<noteq> newline) s, True, rest)))"

lemma getline_shorter: "getline s = Some (line, good, rest) \<Longrightarrow> length rest < length s"
proof -
  assume g: "getline s = Some (line, good, rest)"
  have len: "length (dropWhile (\<lambda>c. c \<noteq> newline) s) \<le> length s"
    by (rule length_dropWhile_le)
  from g have ne: "s \<noteq> []"
    by (auto simp: getline_def split: if_splits)
  show ?thesis
  proof (cases "dropWhile (\<lambda>c. c \<noteq> newline) s")
    case Nil
    with g ne show ?thesis by (auto simp: getline_def)
  next
    case (Cons a r)
    with g ne have "rest = r" by (auto simp: getline_def)
    with len Cons show ?thesis by simp
  qed
qed

subsection \<open>\<open>huffman_tree::read_file\<close>\<close>

text \<open>The body of the loop over the characters of one line.\<close>

definition count_character :: "c_int cmap \<Rightarrow> char \<Rightarrow> c_int cmap" where
  "count_character frequencies c =
     (case map_find frequencies c of
        None \<Rightarrow> map_emplace frequencies c 1
      | Some _ \<Rightarrow> map_incr frequencies c)"

fun count_line :: "c_int cmap \<Rightarrow> string \<Rightarrow> c_int cmap" where
  "count_line frequencies [] = frequencies"
| "count_line frequencies (c # cs) = count_line (count_character frequencies c) cs"

text \<open>The \<open>while (std::getline(file, line))\<close> loop, with \<open>numLines\<close>.\<close>

function read_lines :: "string \<Rightarrow> c_int cmap \<Rightarrow> c_int \<Rightarrow> c_int cmap \<times> c_int" where
  "read_lines s frequencies numLines =
     (case getline s of
        None \<Rightarrow> (frequencies, numLines)
      | Some (line, good, rest) \<Rightarrow>
          read_lines rest (count_line frequencies line)
            (if good then numLines + 1 else numLines))"
  by pat_completeness auto
termination
  by (relation "measure (\<lambda>(s, frequencies, numLines). length s)")
     (auto dest: getline_shorter)

definition read_file :: "string option \<Rightarrow> c_int cmap" where
  "read_file file_name =
     (case file_name of
        None \<Rightarrow> []
      | Some s \<Rightarrow>
          (case read_lines s [] 0 of
             (frequencies, numLines) \<Rightarrow>
               if 0 <s numLines then map_emplace frequencies newline numLines
               else frequencies))"

subsection \<open>The priority queue\<close>

text \<open>
  \<open>Compare\<close> puts the node of larger frequency behind. \<open>precedes tie a b\<close>: \<open>a\<close> is
  served before \<open>b\<close>.
\<close>

definition precedes :: "(node \<Rightarrow> nat) \<Rightarrow> node \<Rightarrow> node \<Rightarrow> bool" where
  "precedes tie a b \<longleftrightarrow>
     frequency a <s frequency b \<or> (frequency a = frequency b \<and> tie a < tie b)"

fun pq_top :: "(node \<Rightarrow> nat) \<Rightarrow> node list \<Rightarrow> node" where
  "pq_top tie [] = default_Node"
| "pq_top tie [a] = a"
| "pq_top tie (a # b # q) =
     (let m = pq_top tie (b # q) in if precedes tie m a then m else a)"

definition pq_pop :: "(node \<Rightarrow> nat) \<Rightarrow> node list \<Rightarrow> node list" where
  "pq_pop tie q = remove1 (pq_top tie q) q"

definition pq_push :: "node \<Rightarrow> node list \<Rightarrow> node list" where
  "pq_push n q = q @ [n]"

subsection \<open>\<open>huffman_tree::encode_characters\<close>\<close>

fun encode_characters :: "string \<Rightarrow> node \<Rightarrow> string cmap \<Rightarrow> string cmap" where
  "encode_characters code (Node c f r l) encoded_chars =
     (if schar c \<ge> 0 then map_emplace encoded_chars c code
      else
        (let e1 = (case l of
                     None \<Rightarrow> encoded_chars
                   | Some ln \<Rightarrow> encode_characters (code @ ''0'') ln encoded_chars)
         in (case r of
               None \<Rightarrow> e1
             | Some rn \<Rightarrow> encode_characters (code @ ''1'') rn e1)))"

subsection \<open>The constructor\<close>

record huffman_tree =
  frequencies :: "c_int cmap"
  encoded_chars :: "string cmap"
  node_queue :: "node list"

text \<open>The first loop: one leaf for every entry of positive count.\<close>

fun push_leaves :: "c_int cmap \<Rightarrow> node list \<Rightarrow> node list" where
  "push_leaves [] q = q"
| "push_leaves ((c, f) # m) q =
     push_leaves m (if 0 <s f then pq_push (new_Node c f) q else q)"

text \<open>One round of the second loop.\<close>

definition merge_step :: "(node \<Rightarrow> nat) \<Rightarrow> node list \<Rightarrow> node list" where
  "merge_step tie q =
     (let l = pq_top tie q;
          q1 = pq_pop tie q;
          r = pq_top tie q1;
          q2 = pq_pop tie q1
      in pq_push (Node (character default_Node) (frequency l + frequency r) (Some r) (Some l)) q2)"

lemma top_in: "q \<noteq> [] \<Longrightarrow> pq_top tie q \<in> set q"
  by (induction tie q rule: pq_top.induct) (auto simp: Let_def)

lemma length_pop: "q \<noteq> [] \<Longrightarrow> length (pq_pop tie q) = length q - 1"
  by (simp add: pq_pop_def top_in length_remove1)

lemma length_merge_step: "1 < length q \<Longrightarrow> length (merge_step tie q) = length q - 1"
proof -
  assume l: "1 < length q"
  then have q: "q \<noteq> []" by auto
  with l have "pq_pop tie q \<noteq> []"
    using length_pop [OF q, of tie] by auto
  then have "length (pq_pop tie (pq_pop tie q)) = length q - 2"
    using length_pop [of "pq_pop tie q" tie] length_pop [OF q, of tie] by simp
  with l show ?thesis
    by (simp add: merge_step_def Let_def pq_push_def)
qed

function merge_loop :: "(node \<Rightarrow> nat) \<Rightarrow> node list \<Rightarrow> node list" where
  "merge_loop tie q = (if length q > 1 then merge_loop tie (merge_step tie q) else q)"
  by pat_completeness auto
termination
  by (relation "measure (\<lambda>(tie, q). length q)") (auto simp: length_merge_step)

definition huffman_tree_ctor :: "(node \<Rightarrow> nat) \<Rightarrow> string option \<Rightarrow> huffman_tree" where
  "huffman_tree_ctor tie file_name =
     (let fs = read_file file_name;
          q = merge_loop tie (push_leaves fs []);
          e1 = (if q \<noteq> [] \<and> length fs \<noteq> 1
                then encode_characters [] (pq_top tie q) [] else []);
          e2 = (if length fs = 1 then map_emplace e1 (fst (hd fs)) ''0'' else e1)
      in \<lparr>frequencies = fs, encoded_chars = e2, node_queue = q\<rparr>)"

subsection \<open>\<open>huffman_tree::get_character_code\<close>\<close>

definition get_character_code :: "huffman_tree \<Rightarrow> char \<Rightarrow> string" where
  "get_character_code t c =
     (case map_find (encoded_chars t) c of None \<Rightarrow> [] | Some code \<Rightarrow> code)"

subsection \<open>\<open>huffman_tree::encode\<close>\<close>




subsection \<open>\<open>huffman_tree::decode\<close>\<close>

text \<open>
  The inner loop, from the node pointer \<open>node\<close> over the unread input: \<open>Invalid\<close> is the
  \<open>return ""\<close> at a character other than \<open>0\<close> and \<open>1\<close>; \<open>Stopped node rest\<close> is the
  pointer and the unread input when the loop condition fails.
\<close>

datatype walk = Invalid | Stopped "node option" string

fun traverse :: "node option \<Rightarrow> string \<Rightarrow> walk" where
  "traverse None s = Stopped None s"
| "traverse (Some n) [] = Stopped (Some n) []"
| "traverse (Some n) (b # s) =
     (if schar (character n) < 0 then
        (if b = CHR ''0'' then traverse (left n) s
         else if b = CHR ''1'' then traverse (right n) s
         else Invalid)
      else Stopped (Some n) (b # s))"


text \<open>
  The outer loop. A round that consumes no input leaves \<open>i\<close> where it was and starts
  again from the root, for ever: that is \<open>None\<close>. \<open>Some\<close> is the string returned.
\<close>

function decode_loop :: "node \<Rightarrow> string \<Rightarrow> string \<Rightarrow> string option" where
  "decode_loop root s decoded =
     (if s = [] then Some decoded
      else (case traverse (Some root) s of
              Invalid \<Rightarrow> Some []
            | Stopped None s' \<Rightarrow> Some []
            | Stopped (Some n) s' \<Rightarrow>
                if length s' < length s
                then decode_loop root s' (decoded @ [character n])
                else None))"
  by pat_completeness auto
termination
  by (relation "measure (\<lambda>(root, s, decoded). length s)") auto

text \<open>The loop of the branch for a single character.\<close>

fun decode_single :: "char \<Rightarrow> string \<Rightarrow> string \<Rightarrow> string" where
  "decode_single only_char [] decoded = decoded"
| "decode_single only_char (d # ds) decoded =
     (if d = CHR ''0'' then decode_single only_char ds (decoded @ [only_char]) else [])"

text \<open>
  \<open>decode\<close>; \<open>None\<close> when the call has no result: the outer loop does not end, or
  \<open>top()\<close> is taken of an empty queue.
\<close>

definition decode :: "(node \<Rightarrow> nat) \<Rightarrow> huffman_tree \<Rightarrow> string \<Rightarrow> string option" where
  "decode tie t string_to_decode =
     (if length (frequencies t) > 1 then
        (if node_queue t = [] then None
         else decode_loop (pq_top tie (node_queue t)) string_to_decode [])
      else if length (frequencies t) = 1 then
        Some (decode_single (fst (hd (frequencies t))) string_to_decode [])
      else Some [])"

declare read_lines.simps [simp del]
declare merge_loop.simps [simp del]
declare decode_loop.simps [simp del]
section \<open>Notions of the statements\<close>

text \<open>
  The lines of a text as the two reading loops see them: each line with the flag
  \<open>good()\<close>, which says that the line ended at a line feed.
\<close>

function lines_of :: "string \<Rightarrow> (string \<times> bool) list" where
  "lines_of s =
     (case getline s of
        None \<Rightarrow> []
      | Some (line, good, rest) \<Rightarrow> (line, good) # lines_of rest)"
  by pat_completeness auto
termination
  by (relation "measure length") (auto dest: getline_shorter)

declare lines_of.simps [simp del]

text \<open>
  The number of occurrences of a character in the lines, and the number of lines that
  ended at a line feed.
\<close>

definition occurrences :: "char \<Rightarrow> (string \<times> bool) list \<Rightarrow> int" where
  "occurrences c ls = sum_list (map (\<lambda>(line, good). int (count_list line c)) ls)"

definition terminated :: "(string \<times> bool) list \<Rightarrow> int" where
  "terminated ls = int (length (filter snd ls))"

text \<open>
  The sources that \<open>int\<close> can count: no byte occurs \<open>2^31\<close> times (the line feeds of
  the text are its lines that ended at a line feed), and, for the sums of counts, the
  text has fewer than \<open>2^31\<close> bytes. A file that cannot be opened counts nothing.
\<close>

definition counts_fit :: "string option \<Rightarrow> bool" where
  "counts_fit file_name \<longleftrightarrow>
     (case file_name of
        None \<Rightarrow> True
      | Some s \<Rightarrow> (\<forall>c \<in> set s. int (count_list s c) < 2 ^ 31))"

definition size_fits :: "string option \<Rightarrow> bool" where
  "size_fits file_name \<longleftrightarrow>
     (case file_name of None \<Rightarrow> True | Some s \<Rightarrow> int (length s) < 2 ^ 31)"

text \<open>The texts of ASCII characters, which are not negative as \<open>char\<close>.\<close>

definition ascii :: "string option \<Rightarrow> bool" where
  "ascii file_name \<longleftrightarrow>
     (case file_name of None \<Rightarrow> True | Some s \<Rightarrow> (\<forall>c \<in> set s. 0 \<le> schar c))"


definition code_of :: "string cmap \<Rightarrow> char \<Rightarrow> string" where
  "code_of tbl c = (case map_find tbl c of None \<Rightarrow> [] | Some code \<Rightarrow> code)"


text \<open>
  A code table: every code is a non-empty sequence of the digits \<open>0\<close> and \<open>1\<close>, and
  no code of a symbol is a prefix of the code of another symbol.
\<close>

definition code_table_ok :: "string cmap \<Rightarrow> bool" where
  "code_table_ok tbl \<longleftrightarrow>
     (\<forall>(c, cd) \<in> set tbl. cd \<noteq> [] \<and> set cd \<subseteq> {CHR ''0'', CHR ''1''}) \<and>
     (\<forall>(c, cd) \<in> set tbl. \<forall>(d, cd') \<in> set tbl. c \<noteq> d \<longrightarrow> \<not> prefix cd cd')"

text \<open>
  The sum over the symbols of a frequency table of frequency times code length.
\<close>

definition expected_length :: "c_int cmap \<Rightarrow> (char \<Rightarrow> string) \<Rightarrow> int" where
  "expected_length fs code = (\<Sum>(c, f)\<leftarrow>fs. sint f * int (length (code c)))"
section \<open>Notions of the proofs\<close>

text \<open>
  Invariants of the ordered map and of the frequency table, the node built by one round
  of merging, paths to the leaves of a tree with their weights, and the least cost
  \<open>hcost\<close> of merging a multiset of weights two by two, lightest first.
\<close>

definition keys_sorted :: "'v cmap \<Rightarrow> bool" where
  "keys_sorted m = sorted_wrt (\<lambda>a b. schar a < schar b) (map fst m)"

definition lookup0 :: "c_int cmap \<Rightarrow> char \<Rightarrow> c_int" where
  "lookup0 m c = (case map_find m c of None \<Rightarrow> 0 | Some v \<Rightarrow> v)"

definition counts_ok :: "c_int cmap \<Rightarrow> bool" where
  "counts_ok m \<longleftrightarrow> keys_sorted m \<and> (\<forall>x \<in> set m. 0 <s snd x)"

text \<open>The node that one round of the merging loop builds from \<open>l\<close> and \<open>r\<close>.\<close>

definition merged :: "node \<Rightarrow> node \<Rightarrow> node" where
  "merged l r = Node (character default_Node) (frequency l + frequency r) (Some r) (Some l)"

definition total :: "node list \<Rightarrow> c_int" where
  "total q = sum_list (map frequency q)"

definition leaves_of :: "c_int cmap \<Rightarrow> node list" where
  "leaves_of m = map (\<lambda>(c, f). new_Node c f) m"

text \<open>
  \<open>leads t p c\<close>: the bit string \<open>p\<close> takes the inner loop of \<open>decode\<close> from \<open>t\<close> to
  a node of character \<open>c\<close>, where it stops with all of \<open>p\<close> read.
\<close>

definition binary :: "string \<Rightarrow> bool" where
  "binary s \<longleftrightarrow> set s \<subseteq> {CHR ''0'', CHR ''1''}"

definition leads :: "node \<Rightarrow> string \<Rightarrow> char \<Rightarrow> bool" where
  "leads t p c \<longleftrightarrow>
     binary p \<and> (\<exists>n. traverse (Some t) p = Stopped (Some n) [] \<and> character n = c \<and> 0 \<le> schar c)"

text \<open>
  Codes for the elements of a finite set: prefix-freeness, the cost under a weight
  function, and the cost \<open>hcost\<close> of merging the two least weights until one is left.
\<close>

definition prefix_free_on :: "'a set \<Rightarrow> ('a \<Rightarrow> string) \<Rightarrow> bool" where
  "prefix_free_on S C \<longleftrightarrow>
     (\<forall>s \<in> S. binary (C s)) \<and> (\<forall>s \<in> S. \<forall>t \<in> S. s \<noteq> t \<longrightarrow> \<not> prefix (C s) (C t))"

definition cost_on :: "'a set \<Rightarrow> ('a \<Rightarrow> int) \<Rightarrow> ('a \<Rightarrow> string) \<Rightarrow> int" where
  "cost_on S w C = (\<Sum>s \<in> S. w s * int (length (C s)))"

definition least :: "int multiset \<Rightarrow> int" where
  "least M = Min (set_mset M)"

definition drop_least :: "int multiset \<Rightarrow> int multiset" where
  "drop_least M = M - {#least M#}"

definition merge_least :: "int multiset \<Rightarrow> int multiset" where
  "merge_least M = add_mset (least M + least (drop_least M)) (drop_least (drop_least M))"

lemma least_in: "M \<noteq> {#} \<Longrightarrow> least M \<in># M"
  by (simp add: least_def)

lemma size_drop_least: "M \<noteq> {#} \<Longrightarrow> size (drop_least M) = size M - 1"
  by (simp add: drop_least_def least_in size_Diff_singleton)

lemma size_merge_least: "1 < size M \<Longrightarrow> size (merge_least M) = size M - 1"
proof -
  assume l: "1 < size M"
  then have m: "M \<noteq> {#}" by auto
  with l have "drop_least M \<noteq> {#}"
    using size_drop_least [OF m] by auto
  from size_drop_least [OF this] size_drop_least [OF m] l show ?thesis
    by (simp add: merge_least_def)
qed

function hcost :: "int multiset \<Rightarrow> int" where
  "hcost M =
     (if size M \<le> 1 then 0 else least M + least (drop_least M) + hcost (merge_least M))"
  by pat_completeness auto
termination
  by (relation "measure size") (auto simp: size_merge_least)

declare hcost.simps [simp del]

text \<open>Exchanging two elements, and the other binary digit.\<close>

definition sw :: "'a \<Rightarrow> 'a \<Rightarrow> 'a \<Rightarrow> 'a" where
  "sw a x s = (if s = a then x else if s = x then a else s)"

definition flip :: "char \<Rightarrow> char" where
  "flip c = (if c = CHR ''0'' then CHR ''1'' else CHR ''0'')"

text \<open>
  The leaves of a tree with their paths, characters and frequencies; the weighted path
  length and the weight of a tree; the trees the constructor builds.
\<close>

definition below :: "char \<Rightarrow> (string \<times> char \<times> int) list \<Rightarrow> (string \<times> char \<times> int) list" where
  "below b ps = map (\<lambda>(p, s). (b # p, s)) ps"

fun paths :: "node \<Rightarrow> (string \<times> char \<times> int) list" where
  "paths (Node c f r l) =
     (if l = None \<and> r = None then [([], c, sint f)]
      else (case l of None \<Rightarrow> [] | Some ln \<Rightarrow> below (CHR ''0'') (paths ln)) @
           (case r of None \<Rightarrow> [] | Some rn \<Rightarrow> below (CHR ''1'') (paths rn)))"

text \<open>The counts of a frequency table as integers, and the cost of a code for them.\<close>

definition counts_of :: "c_int cmap \<Rightarrow> (char \<times> int) list" where
  "counts_of fs = map (\<lambda>(c, f). (c, sint f)) fs"

definition cost_list :: "(char \<times> int) list \<Rightarrow> (char \<Rightarrow> string) \<Rightarrow> int" where
  "cost_list xs code = (\<Sum>(c, f)\<leftarrow>xs. f * int (length (code c)))"

definition wpl :: "node \<Rightarrow> int" where
  "wpl t = (\<Sum>(p, c, f)\<leftarrow>paths t. f * int (length p))"

definition weight :: "node \<Rightarrow> int" where
  "weight t = (\<Sum>(p, c, f)\<leftarrow>paths t. f)"

definition symbols :: "node \<Rightarrow> (char \<times> int) list" where
  "symbols t = map snd (paths t)"

fun wf :: "node \<Rightarrow> bool" where
  "wf (Node c f r l) \<longleftrightarrow>
     (l = None \<and> r = None) \<or>
     (schar c < 0 \<and> (case l of None \<Rightarrow> True | Some ln \<Rightarrow> wf ln) \<and>
      (case r of None \<Rightarrow> True | Some rn \<Rightarrow> wf rn))"

text \<open>The queue during merging.\<close>

definition forest_ok :: "node list \<Rightarrow> bool" where
  "forest_ok q \<longleftrightarrow>
     (\<forall>t \<in> set q. wf t \<and> sint (frequency t) = weight t \<and> 0 \<le> weight t) \<and>
     (\<Sum>t\<leftarrow>q. weight t) < 2 ^ 31"

definition potential :: "node multiset \<Rightarrow> int" where
  "potential Q = sum_mset (image_mset wpl Q)"

definition weights :: "node multiset \<Rightarrow> int multiset" where
  "weights Q = image_mset (\<lambda>t. sint (frequency t)) Q"

definition forest_symbols :: "node multiset \<Rightarrow> (char \<times> int) multiset" where
  "forest_symbols Q = sum_mset (image_mset (\<lambda>t. mset (symbols t)) Q)"
section \<open>Properties\<close>
subsection \<open>Signed characters and the ordered map\<close>

lemma unat_of_char: "unat (of_char c :: 8 word) = of_char c"
proof -
  have "unat (of_nat (of_char c) :: 8 word) = of_char c mod 256"
    by (simp add: unat_of_nat)
  then show ?thesis by (simp add: of_nat_of_char)
qed

lemma schar_inj: "schar a = schar b \<Longrightarrow> a = b"
proof -
  assume "schar a = schar b"
  then have w: "(of_char a :: 8 word) = of_char b"
    by (simp add: schar_def signed_word_eqI)
  then have "(of_char a :: nat) = of_char b" using unat_of_char by metis
  then show ?thesis by simp
qed

lemma keys_sorted_Nil: "keys_sorted []"
  by (simp add: keys_sorted_def)

lemma set_map_emplace: "fst ` set (map_emplace m k v) = insert k (fst ` set m)"
  by (induction m k v rule: map_emplace.induct) auto

lemma keys_sorted_emplace: "keys_sorted m \<Longrightarrow> keys_sorted (map_emplace m k v)"
proof (induction m k v rule: map_emplace.induct)
  case (1 k v)
  then show ?case by (simp add: keys_sorted_def)
next
  case (2 k' v' m k v)
  show ?case
  proof (cases "k = k'")
    case True
    with 2 show ?thesis by simp
  next
    case ne: False
    show ?thesis
    proof (cases "schar k < schar k'")
      case True
      with ne 2(2) show ?thesis by (auto simp: keys_sorted_def)
    next
      case False
      with ne have lt: "schar k' < schar k"
        using schar_inj [of k k'] by force
      from 2(2) have "keys_sorted m" by (simp add: keys_sorted_def)
      with 2(1) ne False have "keys_sorted (map_emplace m k v)" by simp
      moreover have "\<forall>x \<in> fst ` set (map_emplace m k v). schar k' < schar x"
        using 2(2) lt by (auto simp: set_map_emplace keys_sorted_def)
      ultimately show ?thesis using ne False
        by (simp add: keys_sorted_def)
    qed
  qed
qed

lemma map_of_emplace:
  "keys_sorted m \<Longrightarrow>
   map_of (map_emplace m k v) = (if k \<in> dom (map_of m) then map_of m else (map_of m)(k \<mapsto> v))"
proof (induction m k v rule: map_emplace.induct)
  case (1 k v)
  then show ?case by simp
next
  case (2 k' v' m k v)
  from 2(2) have sm: "keys_sorted m" by (simp add: keys_sorted_def)
  show ?case
  proof (cases "k = k'")
    case True
    then show ?thesis by auto
  next
    case ne: False
    show ?thesis
    proof (cases "schar k < schar k'")
      case True
      have "k \<notin> fst ` set m"
        using 2(2) True by (auto simp: keys_sorted_def)
      then have "map_of m k = None" by (simp add: map_of_eq_None_iff)
      with ne True show ?thesis by (auto simp: dom_def)
    next
      case False
      with 2(1) ne sm show ?thesis by (auto simp: dom_def fun_upd_twist)
    qed
  qed
qed

lemma map_fst_incr: "map fst (map_incr m k) = map fst m"
  by (induction m k rule: map_incr.induct) auto

lemma keys_sorted_incr: "keys_sorted m \<Longrightarrow> keys_sorted (map_incr m k)"
  by (simp add: keys_sorted_def map_fst_incr)

lemma map_of_incr:
  "map_of (map_incr m k) = (case map_of m k of None \<Rightarrow> map_of m | Some v \<Rightarrow> (map_of m)(k \<mapsto> v + 1))"
  by (induction m k rule: map_incr.induct) (auto split: option.splits simp: fun_upd_twist)

lemma keys_sorted_distinct: "keys_sorted m \<Longrightarrow> distinct (map fst m)"
proof -
  assume "keys_sorted m"
  then have "sorted_wrt (\<lambda>a b. schar a < schar b) (map fst m)" by (simp add: keys_sorted_def)
  then have "sorted_wrt (\<lambda>a b. a \<noteq> b) (map fst m)"
    by (rule sorted_wrt_mono_rel [rotated]) auto
  then show ?thesis by (simp add: distinct_conv_nth sorted_wrt_iff_nth_less) (metis nat_neq_iff)
qed
subsection \<open>The frequency table\<close>

lemma sint_of_int_small:
  "0 \<le> n \<Longrightarrow> n < 2 ^ 31 \<Longrightarrow> sint (of_int n :: c_int) = n"
  by (simp add: signed_of_int signed_take_bit_int_eq_self)

lemma sless_of_int_small:
  "0 \<le> n \<Longrightarrow> n < 2 ^ 31 \<Longrightarrow> (0 <s (of_int n :: c_int)) \<longleftrightarrow> 0 < n"
  by (simp add: word_sless_alt sint_of_int_small)

lemma sint_add_small:
  "0 \<le> sint (a :: c_int) \<Longrightarrow> 0 \<le> sint b \<Longrightarrow> sint a + sint b < 2 ^ 31 \<Longrightarrow>
   sint (a + b) = sint a + sint b"
proof -
  assume a: "0 \<le> sint a" "0 \<le> sint b" "sint a + sint b < 2 ^ 31"
  have "a + b = of_int (sint a + sint b)" by simp
  then have "sint (a + b) = sint (of_int (sint a + sint b) :: c_int)" by simp
  also have "\<dots> = sint a + sint b" using a by (intro sint_of_int_small) auto
  finally show ?thesis .
qed

lemma counts_ok_Nil: "counts_ok []"
  by (simp add: counts_ok_def keys_sorted_Nil)

text \<open>One more occurrence of \<open>c\<close>: the count of \<open>c\<close> is one more, in 32 bits.\<close>

lemma count_character_map:
  assumes "keys_sorted m"
  shows "keys_sorted (count_character m c)"
    and "map_of (count_character m c) = (map_of m)(c \<mapsto> lookup0 m c + 1)"
proof -
  show "keys_sorted (count_character m c)"
    using assms
    by (simp add: count_character_def keys_sorted_emplace keys_sorted_incr split: option.splits)
  show "map_of (count_character m c) = (map_of m)(c \<mapsto> lookup0 m c + 1)"
  proof (cases "map_of m c")
    case None
    then show ?thesis
      by (simp add: count_character_def map_find_def lookup0_def map_of_emplace [OF assms] dom_def)
  next
    case (Some v)
    then show ?thesis
      by (simp add: count_character_def map_find_def lookup0_def map_of_incr)
  qed
qed

lemma lookup0_count_character:
  "keys_sorted m \<Longrightarrow>
   lookup0 (count_character m c) d = (if d = c then lookup0 m d + 1 else lookup0 m d)"
  by (simp add: lookup0_def map_find_def count_character_map(2))

lemma count_line_map:
  "keys_sorted m \<Longrightarrow>
   keys_sorted (count_line m line) \<and>
   map_of (count_line m line) d =
     (if d \<in> set line then Some (lookup0 m d + of_nat (count_list line d)) else map_of m d)"
proof (induction line arbitrary: m)
  case Nil
  then show ?case by simp
next
  case (Cons c cs)
  have s: "keys_sorted (count_character m c)" using Cons(2) by (rule count_character_map(1))
  from Cons(1) [OF s] show ?case
    by (auto simp: lookup0_count_character [OF Cons(2)] count_character_map(2) [OF Cons(2)]
        count_list_0_iff lookup0_def map_find_def)
qed

lemma lookup0_count_line:
  "keys_sorted m \<Longrightarrow>
   lookup0 (count_line m line) d = lookup0 m d + of_nat (count_list line d)"
  using count_line_map [of m line d]
  by (auto simp: lookup0_def map_find_def count_list_0_iff)

lemma getline_no_newline: "getline s = Some (line, good, rest) \<Longrightarrow> newline \<notin> set line"
  by (auto simp: getline_def split: if_splits list.splits dest: set_takeWhileD)

lemma lines_of_no_newline: "(line, good) \<in> set (lines_of s) \<Longrightarrow> newline \<notin> set line"
proof (induction s rule: lines_of.induct)
  case (1 s)
  show ?case
  proof (cases "getline s")
    case None
    with 1(2) show ?thesis by (simp add: lines_of.simps [of s])
  next
    case (Some a)
    then obtain l g r where a: "getline s = Some (l, g, r)" by (cases a) auto
    then have ls: "lines_of s = (l, g) # lines_of r" by (simp add: lines_of.simps [of s])
    show ?thesis
    proof (cases "(line, good) = (l, g)")
      case True
      with a show ?thesis by (auto dest: getline_no_newline)
    next
      case False
      with 1(2) ls have "(line, good) \<in> set (lines_of r)" by auto
      from 1(1) [OF a refl refl this] show ?thesis .
    qed
  qed
qed

lemma getline_not_good: "getline s = Some (line, False, rest) \<Longrightarrow> rest = []"
  by (auto simp: getline_def split: if_splits list.splits)

lemma lines_of_Nil: "lines_of [] = []"
  by (simp add: getline_def lines_of.simps)


lemma sum_list_all_zero: "\<forall>x \<in> set xs. f x = (0::int) \<Longrightarrow> sum_list (map f xs) = 0"
  by (induction xs) auto

lemma occurrences_newline: "occurrences newline (lines_of s) = 0"
proof -
  have "\<forall>x \<in> set (lines_of s). (case x of (line, good) \<Rightarrow> int (count_list line newline)) = 0"
    using lines_of_no_newline by (auto simp: count_list_0_iff)
  then show ?thesis unfolding occurrences_def
    by (rule sum_list_all_zero)
qed


lemma getline_split:
  "getline s = Some (line, good, rest) \<Longrightarrow> line @ (if good then newline # rest else []) = s"
proof -
  assume g: "getline s = Some (line, good, rest)"
  let ?P = "\<lambda>c. c \<noteq> newline"
  have td: "takeWhile ?P s @ dropWhile ?P s = s" by simp
  from g have ne: "s \<noteq> []"
    by (auto simp: getline_def split: if_splits)
  with g have g': "(case dropWhile ?P s of
        [] \<Rightarrow> Some (takeWhile ?P s, False, [])
      | _ # r \<Rightarrow> Some (takeWhile ?P s, True, r)) = Some (line, good, rest)"
    by (simp add: getline_def)
  show ?thesis
  proof (cases "dropWhile ?P s")
    case Nil
    from g' [unfolded Nil] have l: "takeWhile ?P s = line" and ng: "\<not> good"
      by simp_all
    from td [unfolded Nil l] ng show ?thesis by simp
  next
    case (Cons x xs)
    then have "dropWhile ?P s \<noteq> []" by simp
    then have "\<not> ?P (hd (dropWhile ?P s))" by (rule hd_dropWhile)
    with Cons have x: "x = newline" by simp
    from g' [unfolded Cons] have l: "takeWhile ?P s = line" and gd: "good" and r: "xs = rest"
      by simp_all
    from td [unfolded Cons l x r] gd show ?thesis by simp
  qed
qed

lemma lines_of_flat:
  "concat (map (\<lambda>ln. fst ln @ (if snd ln then [newline] else [])) (lines_of s)) = s"
proof (induction s rule: lines_of.induct)
  case (1 s)
  show ?case
  proof (cases "getline s")
    case None
    then have "s = []" by (simp add: getline_def split: if_splits list.splits)
    then show ?thesis by (simp add: lines_of_Nil)
  next
    case (Some a)
    then obtain line good rest where a: "getline s = Some (line, good, rest)"
      by (cases a) auto
    then have ls: "lines_of s = (line, good) # lines_of rest"
      by (simp add: lines_of.simps [of s])
    from a have gr: "good \<or> rest = []" by (cases good) (auto dest: getline_not_good)
    let ?f = "\<lambda>ln. fst ln @ (if snd ln then [newline] else [])"
    have "concat (map ?f (lines_of s)) =
        (line @ (if good then [newline] else [])) @ concat (map ?f (lines_of rest))"
      by (simp add: ls)
    also have "\<dots> = (line @ (if good then [newline] else [])) @ rest"
      by (simp only: 1 [OF a refl refl])
    also have "\<dots> = line @ (if good then newline # rest else [])"
      using gr by auto
    also have "\<dots> = s"
      using getline_split [OF a] by simp
    finally show ?thesis .
  qed
qed


lemma occurrences_nonneg: "0 \<le> occurrences c ls"
  unfolding occurrences_def by (induction ls) auto

lemma occurrences_Cons:
  "occurrences c ((line, good) # ls) = int (count_list line c) + occurrences c ls"
  by (simp add: occurrences_def)

lemma terminated_Cons:
  "terminated ((line, good) # ls) = (if good then 1 else 0) + terminated ls"
  by (simp add: terminated_def)

text \<open>The reading loop: what it has stored when it ends, in 32 bits.\<close>

lemma read_lines_map:
  "keys_sorted m \<Longrightarrow> read_lines s m n = (m', n') \<Longrightarrow>
   keys_sorted m' \<and>
   map_of m' d =
     (if 0 < occurrences d (lines_of s)
      then Some (lookup0 m d + of_int (occurrences d (lines_of s))) else map_of m d) \<and>
   n' = n + of_int (terminated (lines_of s))"
proof (induction s m n rule: read_lines.induct)
  case (1 s m n)
  show ?case
  proof (cases "getline s")
    case None
    with 1(3) show ?thesis
      using 1(2) by (simp add: occurrences_def terminated_def lines_of.simps read_lines.simps)
  next
    case (Some a)
    then obtain line good rest where a: "getline s = Some (line, good, rest)"
      by (cases a) auto
    then have ls: "lines_of s = (line, good) # lines_of rest"
      by (simp add: lines_of.simps [of s])
    note cl = count_line_map [OF 1(2), of line d]
    have ok: "keys_sorted (count_line m line)" using cl by simp
    have lk: "lookup0 (count_line m line) d = lookup0 m d + of_nat (count_list line d)"
      using 1(2) by (rule lookup0_count_line)
    from 1(3) a have
      "read_lines rest (count_line m line) (if good then n + 1 else n) = (m', n')"
      by (simp add: read_lines.simps [of s])
    from 1(1) [OF a refl refl ok this]
    have s': "keys_sorted m'"
      and m': "map_of m' d =
        (if 0 < occurrences d (lines_of rest)
         then Some (lookup0 (count_line m line) d + of_int (occurrences d (lines_of rest)))
         else map_of (count_line m line) d)"
      and n': "n' = (if good then n + 1 else n) + of_int (terminated (lines_of rest))"
      by simp_all
    have nn: "0 \<le> occurrences d (lines_of rest)" by (rule occurrences_nonneg)
    have "map_of m' d =
        (if 0 < occurrences d (lines_of s)
         then Some (lookup0 m d + of_int (occurrences d (lines_of s))) else map_of m d)"
    proof (cases "0 < occurrences d (lines_of rest)")
      case True
      then show ?thesis
        by (simp add: m' lk ls occurrences_Cons add.assoc)
    next
      case False
      with nn have z: "occurrences d (lines_of rest) = 0" by simp
      show ?thesis
        using cl by (simp add: m' z ls occurrences_Cons count_list_0_iff)
    qed
    with s' n' show ?thesis
      by (simp add: ls terminated_Cons)
  qed
qed

text \<open>The bytes of the text, counted over the lines.\<close>

lemma count_flat:
  "int (count_list s c) =
     occurrences c (lines_of s) + (if c = newline then terminated (lines_of s) else 0)"
proof -
  let ?f = "\<lambda>ln. fst ln @ (if snd ln then [newline] else [])"
  have "int (count_list (concat (map ?f ls)) c) =
      occurrences c ls + (if c = newline then terminated ls else 0)" for ls
    by (induction ls) (auto simp: occurrences_def terminated_def)
  from this [of "lines_of s"] show ?thesis by (simp only: lines_of_flat)
qed

lemma occurrences_flat: "c \<noteq> newline \<Longrightarrow> occurrences c (lines_of s) = int (count_list s c)"
  by (simp add: count_flat)

lemma terminated_flat: "terminated (lines_of s) = int (count_list s newline)"
  by (simp add: count_flat occurrences_newline)

text \<open>The table of a readable file, without any bound on the text.\<close>

lemma read_file_map:
  "keys_sorted (read_file (Some s)) \<and>
   map_of (read_file (Some s)) d =
     (if d = newline
      then (if 0 <s (of_int (terminated (lines_of s)) :: c_int)
            then Some (of_int (terminated (lines_of s))) else None)
      else (if 0 < occurrences d (lines_of s)
            then Some (of_int (occurrences d (lines_of s))) else None))"
proof -
  obtain m n where r: "read_lines s [] 0 = (m, n)" by (cases "read_lines s [] 0") auto
  note rl = read_lines_map [OF keys_sorted_Nil r]
  have sm: "keys_sorted m" using rl [of d] by simp
  have md: "map_of m d =
      (if 0 < occurrences d (lines_of s) then Some (of_int (occurrences d (lines_of s))) else None)"
    for d
    using rl [of d] by (simp add: lookup0_def map_find_def)
  have n: "n = of_int (terminated (lines_of s))" using rl [of d] by simp
  have nl: "map_of m newline = None" by (simp add: md occurrences_newline)
  show ?thesis
  proof (cases "0 <s n")
    case True
    then have rf: "read_file (Some s) = map_emplace m newline n"
      using r by (simp add: read_file_def)
    from True nl show ?thesis
      by (auto simp: rf keys_sorted_emplace [OF sm] map_of_emplace [OF sm] md n dom_def
          occurrences_newline)
  next
    case False
    then have rf: "read_file (Some s) = m"
      using r by (simp add: read_file_def)
    from False nl show ?thesis
      by (auto simp: rf sm md n occurrences_newline)
  qed
qed

lemma read_file_sorted: "keys_sorted (read_file src)"
  by (cases src) (simp_all add: read_file_map, simp add: read_file_def keys_sorted_Nil)

text \<open>The table of a text in which no byte occurs \<open>2^31\<close> times.\<close>

lemma read_file_fit:
  assumes "counts_fit (Some s)"
  shows "map_of (read_file (Some s)) d =
     (if d \<in> set s then Some (of_int (int (count_list s d))) else None)"
    and "d \<in> set s \<Longrightarrow> sint (of_int (int (count_list s d)) :: c_int) = int (count_list s d)"
    and "d \<in> set s \<Longrightarrow> 0 < int (count_list s d)"
proof -
  have b: "int (count_list s c) < 2 ^ 31" for c
  proof (cases "c \<in> set s")
    case True
    with assms show ?thesis by (simp add: counts_fit_def)
  next
    case False
    then have "count_list s c = 0" by (simp add: count_list_0_iff)
    then show ?thesis by simp
  qed
  show "d \<in> set s \<Longrightarrow> sint (of_int (int (count_list s d)) :: c_int) = int (count_list s d)"
    using b [of d] by (intro sint_of_int_small) auto
  have in_s: "d \<in> set s \<longleftrightarrow> 0 < int (count_list s d)"
    using count_list_0_iff [of s d] by auto
  then show "d \<in> set s \<Longrightarrow> 0 < int (count_list s d)" by simp
  show "map_of (read_file (Some s)) d =
     (if d \<in> set s then Some (of_int (int (count_list s d))) else None)"
  proof (cases "d = newline")
    case True
    have "(0 <s (of_int (terminated (lines_of s)) :: c_int)) \<longleftrightarrow> 0 < terminated (lines_of s)"
      using b [of newline] by (intro sless_of_int_small) (simp_all add: terminated_flat)
    with True show ?thesis
      using read_file_map [of s d] in_s by (simp add: terminated_flat)
  next
    case False
    then show ?thesis
      using read_file_map [of s d] in_s by (simp add: occurrences_flat)
  qed
qed

lemma read_file_ok: "counts_fit src \<Longrightarrow> counts_ok (read_file src)"
proof (cases src)
  case None
  then show ?thesis by (simp add: read_file_def counts_ok_Nil)
next
  case (Some s)
  assume "counts_fit src"
  with Some have fit: "counts_fit (Some s)" by simp
  have sorted: "keys_sorted (read_file (Some s))" by (rule read_file_sorted)
  have "0 <s snd x" if x: "x \<in> set (read_file (Some s))" for x
  proof -
    obtain c v where cv: "x = (c, v)" by (cases x)
    with x sorted have m: "map_of (read_file (Some s)) c = Some v"
      by (simp add: keys_sorted_distinct)
    with read_file_fit(1) [OF fit, of c] have c: "c \<in> set s" and v: "v = of_int (int (count_list s c))"
      by (auto split: if_splits)
    from read_file_fit(2,3) [OF fit c] v cv show ?thesis
      by (simp add: word_sless_alt)
  qed
  with sorted Some show ?thesis by (simp add: counts_ok_def)
qed


subsection \<open>The merging loop\<close>

lemma top_min: "n \<in> set q \<Longrightarrow> frequency (pq_top tie q) \<le>s frequency n"
  by (induction tie q rule: pq_top.induct)
     (auto simp: Let_def precedes_def word_sless_alt word_sle_eq)

lemma mset_pop: "q \<noteq> [] \<Longrightarrow> add_mset (pq_top tie q) (mset (pq_pop tie q)) = mset q"
  by (simp add: pq_pop_def top_in)

lemma set_pop: "set (pq_pop tie q) \<subseteq> set q"
  by (simp add: pq_pop_def set_remove1_subset)

lemma pop_nonempty: "1 < length q \<Longrightarrow> pq_pop tie q \<noteq> []"
proof -
  assume l: "1 < length q"
  then have "q \<noteq> []" by auto
  from length_pop [OF this, of tie] l show ?thesis by auto
qed

lemma merge_step_eq:
  "merge_step tie q =
     pq_push (merged (pq_top tie q) (pq_top tie (pq_pop tie q))) (pq_pop tie (pq_pop tie q))"
  by (simp add: merge_step_def merged_def Let_def)

lemma mset_merge_step:
  "1 < length q \<Longrightarrow>
   add_mset (pq_top tie q) (add_mset (pq_top tie (pq_pop tie q)) (mset (merge_step tie q))) =
   add_mset (merged (pq_top tie q) (pq_top tie (pq_pop tie q))) (mset q)"
proof -
  assume l: "1 < length q"
  then have q: "q \<noteq> []" by auto
  from l have q1: "pq_pop tie q \<noteq> []" by (rule pop_nonempty)
  show ?thesis
    using mset_pop [OF q, of tie] mset_pop [OF q1, of tie]
    by (simp add: merge_step_eq pq_push_def)
qed

lemma total_mset: "total q = sum_mset (image_mset frequency (mset q))"
  by (simp add: total_def sum_mset_sum_list [symmetric])

lemma total_merge_step: "1 < length q \<Longrightarrow> total (merge_step tie q) = total q"
proof -
  assume l: "1 < length q"
  have "sum_mset (image_mset frequency
          (add_mset (pq_top tie q) (add_mset (pq_top tie (pq_pop tie q)) (mset (merge_step tie q))))) =
        sum_mset (image_mset frequency
          (add_mset (merged (pq_top tie q) (pq_top tie (pq_pop tie q))) (mset q)))"
    by (simp only: mset_merge_step [OF l])
  then show ?thesis by (simp add: total_mset merged_def)
qed

lemma merge_loop_one:
  "q \<noteq> [] \<Longrightarrow> length (merge_loop tie q) = 1 \<and> total (merge_loop tie q) = total q"
proof (induction tie q rule: merge_loop.induct)
  case (1 tie q)
  show ?case
  proof (cases "1 < length q")
    case True
    then have "length (merge_step tie q) = length q - 1" by (rule length_merge_step)
    with True have "merge_step tie q \<noteq> []" by auto
    from 1(1) [OF True this] True show ?thesis
      by (simp add: merge_loop.simps [of tie q] total_merge_step)
  next
    case False
    with 1(2) have "length q = 1" by (cases q) auto
    then show ?thesis by (simp add: merge_loop.simps [of tie q])
  qed
qed

lemma merge_loop_Nil: "merge_loop tie [] = []"
  by (simp add: merge_loop.simps)

text \<open>
  Claim C7. While more than one node is queued, a round of the loop removes the two
  nodes \<open>A\<close> and \<open>B\<close> of lowest frequency, \<open>A\<close> first and of frequency not larger
  than that of \<open>B\<close>, and inserts a node of frequency \<open>A.frequency + B.frequency\<close> (the
  sum of the two \<open>int\<close>s, which is their sum as integers when that is below \<open>2^31\<close>)
  whose left child is \<open>A\<close> and whose right child is \<open>B\<close>; the loop runs such rounds
  as long as more than one node is queued and ends, with exactly one node when it
  started with at least one.
\<close>

theorem merge_step_spec:
  "merge_loop tie q = (if 1 < length q then merge_loop tie (merge_step tie q) else q) \<and>
   (q \<noteq> [] \<longrightarrow> length (merge_loop tie q) = 1) \<and>
   (1 < length q \<longrightarrow>
     (let A = pq_top tie q; q1 = pq_pop tie q; B = pq_top tie q1; q2 = pq_pop tie q1;
          M = last (merge_step tie q)
      in A \<in> set q \<and> (\<forall>n \<in> set q. frequency A \<le>s frequency n) \<and>
         B \<in> set q1 \<and> (\<forall>n \<in> set q1. frequency B \<le>s frequency n) \<and>
         frequency A \<le>s frequency B \<and>
         mset q = add_mset A (mset q1) \<and> mset q1 = add_mset B (mset q2) \<and>
         merge_step tie q = q2 @ [M] \<and>
         frequency M = frequency A + frequency B \<and>
         (0 \<le> sint (frequency A) \<and> sint (frequency A) + sint (frequency B) < 2 ^ 31 \<longrightarrow>
            sint (frequency M) = sint (frequency A) + sint (frequency B)) \<and>
         left M = Some A \<and> right M = Some B \<and> character M = CHR 0xC0 \<and>
         schar (character M) = - 64))"
proof (intro conjI impI)
  show "merge_loop tie q = (if 1 < length q then merge_loop tie (merge_step tie q) else q)"
    by (simp add: merge_loop.simps [of tie q])
  show "length (merge_loop tie q) = 1" if "q \<noteq> []"
    using merge_loop_one [OF that, of tie] by simp
  assume l: "1 < length q"
  then have q: "q \<noteq> []" by auto
  from l have q1: "pq_pop tie q \<noteq> []" by (rule pop_nonempty)
  let ?A = "pq_top tie q" and ?B = "pq_top tie (pq_pop tie q)"
  have a: "?A \<in> set q" using q by (rule top_in)
  have b: "?B \<in> set (pq_pop tie q)" using q1 by (rule top_in)
  then have b': "?B \<in> set q" using set_pop by blast
  have ab: "frequency ?A \<le>s frequency ?B" using b' by (rule top_min)
  have ms: "mset q = add_mset ?A (mset (pq_pop tie q))"
    "mset (pq_pop tie q) = add_mset ?B (mset (pq_pop tie (pq_pop tie q)))"
    using mset_pop [OF q, of tie] mset_pop [OF q1, of tie] by simp_all
  have st: "merge_step tie q = pq_pop tie (pq_pop tie q) @ [merged ?A ?B]"
    by (simp add: merge_step_eq pq_push_def)
  have sum: "sint (frequency ?A + frequency ?B) = sint (frequency ?A) + sint (frequency ?B)"
    if "0 \<le> sint (frequency ?A)" "sint (frequency ?A) + sint (frequency ?B) < 2 ^ 31"
  proof -
    from ab that(1) have "0 \<le> sint (frequency ?B)" by (simp add: word_sle_eq)
    with that show ?thesis by (intro sint_add_small)
  qed
  show "let A = pq_top tie q; q1 = pq_pop tie q; B = pq_top tie q1; q2 = pq_pop tie q1;
          M = last (merge_step tie q)
      in A \<in> set q \<and> (\<forall>n \<in> set q. frequency A \<le>s frequency n) \<and>
         B \<in> set q1 \<and> (\<forall>n \<in> set q1. frequency B \<le>s frequency n) \<and>
         frequency A \<le>s frequency B \<and>
         mset q = add_mset A (mset q1) \<and> mset q1 = add_mset B (mset q2) \<and>
         merge_step tie q = q2 @ [M] \<and>
         frequency M = frequency A + frequency B \<and>
         (0 \<le> sint (frequency A) \<and> sint (frequency A) + sint (frequency B) < 2 ^ 31 \<longrightarrow>
            sint (frequency M) = sint (frequency A) + sint (frequency B)) \<and>
         left M = Some A \<and> right M = Some B \<and> character M = CHR 0xC0 \<and>
         schar (character M) = - 64"
    using a b ab ms [symmetric] sum
    by (simp add: Let_def st top_min merged_def default_Node_def new_Node_def schar_def)
qed

theorem merge_step_spec_witness:
  "merge_step (\<lambda>n. 0) [new_Node (CHR ''a'') 1, new_Node (CHR ''b'') 2, new_Node (CHR ''c'') 4] =
     [new_Node (CHR ''c'') 4,
      Node (CHR 0xC0) 3 (Some (new_Node (CHR ''b'') 2)) (Some (new_Node (CHR ''a'') 1))] \<and>
   merge_loop (\<lambda>n. 0) [new_Node (CHR ''a'') 1, new_Node (CHR ''b'') 2, new_Node (CHR ''c'') 4] =
     [Node (CHR 0xC0) 7 (Some (new_Node (CHR ''c'') 4))
        (Some (Node (CHR 0xC0) 3 (Some (new_Node (CHR ''b'') 2)) (Some (new_Node (CHR ''a'') 1))))] \<and>
   length (merge_loop (\<lambda>n. 0)
     [new_Node (CHR ''a'') 1, new_Node (CHR ''b'') 2, new_Node (CHR ''c'') 4]) = 1"
proof -
  let ?q = "[new_Node (CHR ''a'') 1, new_Node (CHR ''b'') 2, new_Node (CHR ''c'') 4]"
  let ?q' = "[new_Node (CHR ''c'') 4,
      Node (CHR 0xC0) 3 (Some (new_Node (CHR ''b'') 2)) (Some (new_Node (CHR ''a'') 1))]"
  let ?r = "Node (CHR 0xC0) 7 (Some (new_Node (CHR ''c'') 4))
        (Some (Node (CHR 0xC0) 3 (Some (new_Node (CHR ''b'') 2)) (Some (new_Node (CHR ''a'') 1))))"
  have m1: "merge_step (\<lambda>n. 0) ?q = ?q'" by code_simp
  have m2: "merge_step (\<lambda>n. 0) ?q' = [?r]" by code_simp
  from merge_step_spec [of "\<lambda>n. 0" ?q, THEN conjunct1]
  have "merge_loop (\<lambda>n. 0) ?q = merge_loop (\<lambda>n. 0) ?q'" by (simp add: m1)
  also from merge_step_spec [of "\<lambda>n. 0" ?q', THEN conjunct1]
  have "\<dots> = merge_loop (\<lambda>n. 0) [?r]" by (simp add: m2)
  also from merge_step_spec [of "\<lambda>n. 0" "[?r]", THEN conjunct1]
  have "\<dots> = [?r]" by simp
  finally have l: "merge_loop (\<lambda>n. 0) ?q = [?r]" .
  with m1 show ?thesis by simp
qed
subsection \<open>The constructed object\<close>

lemma size_fits_counts: "size_fits src \<Longrightarrow> counts_fit src"
proof (cases src)
  case None
  then show ?thesis by (simp add: counts_fit_def)
next
  case (Some s)
  assume "size_fits src"
  with Some have "int (length s) < 2 ^ 31" by (simp add: size_fits_def)
  moreover have "int (count_list s c) \<le> int (length s)" for c
    by (simp add: count_le_length)
  ultimately have "int (count_list s c) < 2 ^ 31" for c
    using order_le_less_trans by blast
  with Some show ?thesis by (simp add: counts_fit_def)
qed

lemma push_leaves_all:
  "\<forall>x \<in> set m. 0 <s snd x \<Longrightarrow> push_leaves m q = q @ leaves_of m"
  by (induction m q rule: push_leaves.induct) (auto simp: leaves_of_def pq_push_def)


lemma ctor_queue:
  "counts_fit src \<Longrightarrow>
   node_queue (huffman_tree_ctor tie src) = merge_loop tie (leaves_of (read_file src))"
  using read_file_ok [of src]
  by (simp add: huffman_tree_ctor_def Let_def counts_ok_def push_leaves_all)

lemma ctor_frequencies: "frequencies (huffman_tree_ctor tie src) = read_file src"
  by (simp add: huffman_tree_ctor_def Let_def)

text \<open>The counts of a text add up to its length.\<close>

lemma sum_by_keys:
  "distinct (map fst xs) \<Longrightarrow>
   sum_list (map (\<lambda>x. h (snd x)) xs) = (\<Sum>c \<in> fst ` set xs. (h (the (map_of xs c)) :: int))"
proof (induction xs)
  case Nil
  show ?case by simp
next
  case (Cons x xs)
  obtain c f where x: "x = (c, f)" by (cases x)
  from Cons(2) x have c: "c \<notin> fst ` set xs" and d: "distinct (map fst xs)" by auto
  have "(\<Sum>k \<in> fst ` set xs. h (the (map_of (x # xs) k))) =
      (\<Sum>k \<in> fst ` set xs. h (the (map_of xs k)))"
    by (rule sum.cong) (use c x in auto)
  with Cons(1) [OF d] c x show ?case by simp
qed

lemma read_file_keys: "counts_fit (Some s) \<Longrightarrow> fst ` set (read_file (Some s)) = set s"
proof -
  assume fit: "counts_fit (Some s)"
  have "dom (map_of (read_file (Some s))) = set s"
    using read_file_fit(1) [OF fit] by (auto simp: dom_def split: if_splits)
  then show ?thesis by (simp add: dom_map_of_conv_image_fst)
qed

lemma sum_counts:
  assumes "counts_fit (Some s)"
  shows "sum_list (map (\<lambda>x. sint (snd x)) (read_file (Some s))) = int (length s)"
proof -
  let ?fs = "read_file (Some s)"
  have "distinct (map fst ?fs)" using read_file_sorted by (rule keys_sorted_distinct)
  then have "sum_list (map (\<lambda>x. sint (snd x)) ?fs) = (\<Sum>c \<in> fst ` set ?fs. sint (the (map_of ?fs c)))"
    by (rule sum_by_keys)
  also have "\<dots> = (\<Sum>c \<in> set s. int (count_list s c))"
    unfolding read_file_keys [OF assms]
    by (rule sum.cong) (use read_file_fit [OF assms] in auto)
  also have "\<dots> = int (\<Sum>c \<in> set s. count_list s c)" by simp
  also have "(\<Sum>c \<in> set s. count_list s c) = length s"
    by (rule sum_count_set) auto
  finally show ?thesis .
qed





text \<open>
  Claim C4. When exactly one distinct symbol was observed, its code is \<open>0\<close> and
  decoding \<open>000\<close> gives the symbol three times.
\<close>

theorem single_symbol:
  "frequencies (huffman_tree_ctor tie src) = [(c, n)] \<Longrightarrow>
   get_character_code (huffman_tree_ctor tie src) c = ''0'' \<and>
   decode tie (huffman_tree_ctor tie src) ''000'' = Some [c, c, c]"
proof -
  assume f: "frequencies (huffman_tree_ctor tie src) = [(c, n)]"
  then have rf: "read_file src = [(c, n)]" by (simp add: ctor_frequencies)
  then have "encoded_chars (huffman_tree_ctor tie src) = [(c, ''0'')]"
    by (simp add: huffman_tree_ctor_def Let_def)
  then have "get_character_code (huffman_tree_ctor tie src) c = ''0''"
    by (simp add: get_character_code_def map_find_def)
  moreover have "decode tie (huffman_tree_ctor tie src) ''000'' = Some [c, c, c]"
    using f by (simp add: decode_def)
  ultimately show ?thesis by simp
qed

theorem single_symbol_witness:
  "frequencies (huffman_tree_ctor (\<lambda>n. 0) (Some ''aaa'')) = [(CHR ''a'', 3)] \<and>
   get_character_code (huffman_tree_ctor (\<lambda>n. 0) (Some ''aaa'')) (CHR ''a'') = ''0'' \<and>
   decode (\<lambda>n. 0) (huffman_tree_ctor (\<lambda>n. 0) (Some ''aaa'')) ''000'' = Some ''aaa''"
proof -
  have h: "frequencies (huffman_tree_ctor (\<lambda>n. 0) (Some ''aaa'')) = [(CHR ''a'', 3)]"
    by code_simp
  from single_symbol [OF h] h show ?thesis by simp
qed
subsection \<open>Encoding\<close>









subsection \<open>Walking the tree\<close>

lemma traverse_append:
  "traverse p s = Stopped (Some n) [] \<Longrightarrow> 0 \<le> schar (character n) \<Longrightarrow>
   traverse p (s @ rest) = Stopped (Some n) rest"
proof (induction p s rule: traverse.induct)
  case (1 s)
  then show ?case by simp
next
  case (2 m)
  then show ?case by (cases rest) auto
next
  case (3 m b s)
  then show ?case by (auto split: if_splits)
qed





lemma leads_left:
  "schar (character t) < 0 \<Longrightarrow> left t = Some ln \<Longrightarrow> leads ln p c \<Longrightarrow> leads t (CHR ''0'' # p) c"
  by (auto simp: leads_def binary_def)

lemma leads_right:
  "schar (character t) < 0 \<Longrightarrow> right t = Some rn \<Longrightarrow> leads rn p c \<Longrightarrow> leads t (CHR ''1'' # p) c"
  by (auto simp: leads_def binary_def)

lemma leads_here: "0 \<le> schar (character t) \<Longrightarrow> leads t [] (character t)"
  by (auto simp: leads_def binary_def)

lemma encode_characters_sorted:
  "keys_sorted tbl \<Longrightarrow> keys_sorted (encode_characters code t tbl)"
proof (induction code t tbl rule: encode_characters.induct)
  case (1 code c f r l tbl)
  show ?case
  proof (cases "0 \<le> schar c")
    case True
    with 1(3) show ?thesis by (simp add: keys_sorted_emplace)
  next
    case neg: False
    let ?e1 = "case l of None \<Rightarrow> tbl | Some ln \<Rightarrow> encode_characters (code @ ''0'') ln tbl"
    have e1: "keys_sorted ?e1"
      using 1(1) [OF neg] 1(3) by (cases l) auto
    have "keys_sorted (case r of None \<Rightarrow> ?e1 | Some rn \<Rightarrow> encode_characters (code @ ''1'') rn ?e1)"
      using 1(2) [OF neg refl] e1 by (cases r) auto
    with neg show ?thesis by (simp add: Let_def)
  qed
qed

lemma encode_characters_entries:
  "keys_sorted tbl \<Longrightarrow> map_of (encode_characters code t tbl) c = Some cd \<Longrightarrow>
   map_of tbl c = Some cd \<or> (\<exists>p. cd = code @ p \<and> leads t p c)"
proof (induction code t tbl arbitrary: cd rule: encode_characters.induct)
  case (1 code ch f r l tbl)
  let ?t = "Node ch f r l"
  show ?case
  proof (cases "0 \<le> schar ch")
    case True
    with 1(4) have "map_of (map_emplace tbl ch code) c = Some cd" by simp
    then have "map_of tbl c = Some cd \<or> (c = ch \<and> cd = code)"
      by (auto simp: map_of_emplace [OF 1(3)] split: if_splits)
    moreover have "leads ?t [] ch" using True leads_here [of ?t] by simp
    ultimately show ?thesis by auto
  next
    case neg: False
    let ?e1 = "case l of None \<Rightarrow> tbl | Some ln \<Rightarrow> encode_characters (code @ ''0'') ln tbl"
    have s1: "keys_sorted ?e1"
      using 1(3) by (cases l) (auto simp: encode_characters_sorted)
    have e1: "map_of tbl c = Some cd' \<or> (\<exists>p. cd' = code @ p \<and> leads ?t p c)"
      if "map_of ?e1 c = Some cd'" for cd'
    proof (cases l)
      case None
      with that show ?thesis by simp
    next
      case (Some ln)
      with that have "map_of (encode_characters (code @ ''0'') ln tbl) c = Some cd'" by simp
      from 1(1) [OF neg Some 1(3) this]
      show ?thesis
      proof
        assume "map_of tbl c = Some cd'" then show ?thesis ..
      next
        assume "\<exists>p. cd' = (code @ ''0'') @ p \<and> leads ln p c"
        then obtain p where "cd' = code @ (CHR ''0'' # p)" "leads ln p c" by auto
        moreover from this neg Some have "leads ?t (CHR ''0'' # p) c"
          using leads_left [of ?t ln p c] by simp
        ultimately show ?thesis by blast
      qed
    qed
    from 1(4) neg have fin:
      "map_of (case r of None \<Rightarrow> ?e1 | Some rn \<Rightarrow> encode_characters (code @ ''1'') rn ?e1) c = Some cd"
      by (simp add: Let_def)
    show ?thesis
    proof (cases r)
      case None
      with fin have "map_of ?e1 c = Some cd" by simp
      then show ?thesis by (rule e1)
    next
      case (Some rn)
      with fin have "map_of (encode_characters (code @ ''1'') rn ?e1) c = Some cd" by simp
      from 1(2) [OF neg refl Some s1 this]
      show ?thesis
      proof
        assume "map_of ?e1 c = Some cd" then show ?thesis by (rule e1)
      next
        assume "\<exists>p. cd = (code @ ''1'') @ p \<and> leads rn p c"
        then obtain p where "cd = code @ (CHR ''1'' # p)" "leads rn p c" by auto
        moreover from this neg Some have "leads ?t (CHR ''1'' # p) c"
          using leads_right [of ?t rn p c] by simp
        ultimately show ?thesis by blast
      qed
    qed
  qed
qed
subsection \<open>The code table\<close>

lemma merge_step_two:
  "length q = 2 \<Longrightarrow>
   merge_step tie q = [merged (pq_top tie q) (pq_top tie (pq_pop tie q))]"
proof -
  assume l: "length q = 2"
  then have "length (merge_step tie q) = 1" by (simp add: length_merge_step)
  then show ?thesis
    by (cases "pq_pop tie (pq_pop tie q)") (auto simp: merge_step_eq pq_push_def)
qed

lemma merge_loop_single: "merge_loop tie [n] = [n]"
  by (simp add: merge_loop.simps)

lemma merge_loop_internal:
  "1 < length q \<Longrightarrow> \<exists>l r. merge_loop tie q = [merged l r]"
proof (induction tie q rule: merge_loop.induct)
  case (1 tie q)
  show ?case
  proof (cases "length q = 2")
    case True
    with 1(2) have "merge_loop tie q = [merged (pq_top tie q) (pq_top tie (pq_pop tie q))]"
      by (simp add: merge_loop.simps [of tie q] merge_step_two merge_loop_single)
    then show ?thesis by blast
  next
    case False
    with 1(2) have "1 < length (merge_step tie q)" by (simp add: length_merge_step)
    from 1(1) [OF 1(2) this] 1(2) show ?thesis
      by (simp add: merge_loop.simps [of tie q])
  qed
qed

lemma merged_negative: "schar (character (merged l r)) < 0"
  by (simp add: merged_def default_Node_def new_Node_def schar_def)

lemma length_leaves_of: "length (leaves_of m) = length m"
  by (simp add: leaves_of_def)

text \<open>The object built from more than one symbol.\<close>

lemma ctor_many:
  assumes "counts_fit src" and "1 < length (read_file src)"
  obtains root where "node_queue (huffman_tree_ctor tie src) = [root]"
    and "schar (character root) < 0"
    and "encoded_chars (huffman_tree_ctor tie src) = encode_characters [] root []"
proof -
  from assms(2) have "1 < length (leaves_of (read_file src))" by (simp add: length_leaves_of)
  from merge_loop_internal [OF this, of tie] obtain l r where
    m: "merge_loop tie (leaves_of (read_file src)) = [merged l r]" by blast
  have q: "node_queue (huffman_tree_ctor tie src) = [merged l r]"
    by (simp add: ctor_queue [OF assms(1)] m)
  have "push_leaves (read_file src) [] = leaves_of (read_file src)"
    using read_file_ok [OF assms(1)] by (simp add: counts_ok_def push_leaves_all)
  with assms(2) m have "encoded_chars (huffman_tree_ctor tie src) = encode_characters [] (merged l r) []"
    by (simp add: huffman_tree_ctor_def Let_def)
  with q merged_negative [of l r] that show ?thesis by blast
qed

lemma ctor_one:
  "read_file src = [(c, n)] \<Longrightarrow> encoded_chars (huffman_tree_ctor tie src) = [(c, ''0'')]"
  by (simp add: huffman_tree_ctor_def Let_def)

lemma ctor_none:
  "read_file src = [] \<Longrightarrow> encoded_chars (huffman_tree_ctor tie src) = []"
  by (simp add: huffman_tree_ctor_def Let_def push_leaves.simps merge_loop_Nil)

lemma leads_nonempty: "schar (character t) < 0 \<Longrightarrow> leads t p c \<Longrightarrow> p \<noteq> []"
  by (auto simp: leads_def)

lemma leads_prefix:
  assumes "leads t p c" and "leads t (p @ u) d"
  shows "u = [] \<and> c = d"
proof -
  from assms(1) obtain n where n: "traverse (Some t) p = Stopped (Some n) []"
    "character n = c" "0 \<le> schar c" by (auto simp: leads_def)
  from assms(2) obtain m where m: "traverse (Some t) (p @ u) = Stopped (Some m) []"
    "character m = d" by (auto simp: leads_def)
  from n have "traverse (Some t) (p @ u) = Stopped (Some n) u"
    by (simp add: traverse_append)
  with m n show ?thesis by simp
qed

text \<open>Every entry of the code table of an object built from more than one symbol.\<close>

lemma ctor_many_entries:
  assumes "counts_fit src" and "1 < length (read_file src)"
    and "node_queue (huffman_tree_ctor tie src) = [root]"
    and "map_of (encoded_chars (huffman_tree_ctor tie src)) c = Some cd"
  shows "leads root cd c \<and> cd \<noteq> []"
proof -
  from ctor_many [OF assms(1,2), of tie] assms(3)
  have neg: "schar (character root) < 0"
    and e: "encoded_chars (huffman_tree_ctor tie src) = encode_characters [] root []"
    by auto
  from assms(4) e have "map_of (encode_characters [] root []) c = Some cd" by simp
  from encode_characters_entries [OF keys_sorted_Nil this]
  have "leads root cd c" by simp
  with neg show ?thesis by (auto dest: leads_nonempty)
qed

lemma ctor_sorted: "keys_sorted (encoded_chars (huffman_tree_ctor tie src))"
proof -
  have "keys_sorted [(k, v)]" for k :: char and v :: string
    by (simp add: keys_sorted_def)
  then show ?thesis
    by (simp add: huffman_tree_ctor_def Let_def encode_characters_sorted keys_sorted_Nil)
qed

text \<open>
  Claim C3. After construction every code stored in the code table is a non-empty
  sequence of the digits \<open>0\<close> and \<open>1\<close>, and of two distinct symbols of the table
  neither has a code that is a prefix of the code of the other. This is so for the
  texts that \<open>int\<close> can count, those in which no byte occurs \<open>2^31\<close> times.
\<close>

theorem codes_prefix_free:
  assumes fit: "counts_fit src"
  shows "code_table_ok (encoded_chars (huffman_tree_ctor tie src))"
proof -
  let ?tbl = "encoded_chars (huffman_tree_ctor tie src)"
  have mo: "map_of ?tbl c = Some cd" if "(c, cd) \<in> set ?tbl" for c cd
    using that ctor_sorted [of tie src] by (simp add: keys_sorted_distinct)
  consider "read_file src = []" | "length (read_file src) = 1" | "1 < length (read_file src)"
    by (cases "read_file src") (auto simp: less_Suc_eq_le Suc_le_eq)
  then show ?thesis
  proof cases
    case 1
    then show ?thesis by (simp add: ctor_none code_table_ok_def)
  next
    case 2
    then obtain c n where "read_file src = [(c, n)]"
      by (cases "read_file src") auto
    then show ?thesis by (simp add: ctor_one code_table_ok_def)
  next
    case 3
    from ctor_many [OF fit 3, of tie] obtain root where
      q: "node_queue (huffman_tree_ctor tie src) = [root]" by blast
    have a: "cd \<noteq> [] \<and> set cd \<subseteq> {CHR ''0'', CHR ''1''}" if "(c, cd) \<in> set ?tbl" for c cd
      using ctor_many_entries [OF fit 3 q mo [OF that]] by (simp add: leads_def binary_def)
    have b: "\<not> prefix cd cd'"
      if "(c, cd) \<in> set ?tbl" "(d, cd') \<in> set ?tbl" "c \<noteq> d" for c cd d cd'
    proof
      assume "prefix cd cd'"
      then obtain u where u: "cd' = cd @ u" by (auto simp: prefix_def)
      have "leads root cd c" "leads root (cd @ u) d"
        using ctor_many_entries [OF fit 3 q mo [OF that(1)]]
          ctor_many_entries [OF fit 3 q mo [OF that(2)]] u by simp_all
      then have "c = d" by (auto dest: leads_prefix)
      with that(3) show False by simp
    qed
    show ?thesis
      unfolding code_table_ok_def using a b by blast
  qed
qed

theorem codes_prefix_free_witness:
  "encoded_chars (huffman_tree_ctor (\<lambda>n. 0) (Some ''abbcccc'')) =
     [(CHR ''a'', ''00''), (CHR ''b'', ''01''), (CHR ''c'', ''1'')] \<and>
   code_table_ok [(CHR ''a'', ''00''), (CHR ''b'', ''01''), (CHR ''c'', ''1'')]"
proof -
  have t: "encoded_chars (huffman_tree_ctor (\<lambda>n. 0) (Some ''abbcccc'')) =
      [(CHR ''a'', ''00''), (CHR ''b'', ''01''), (CHR ''c'', ''1'')]"
    by code_simp
  have h: "counts_fit (Some ''abbcccc'')" by (simp add: counts_fit_def)
  from codes_prefix_free [OF h, of "\<lambda>n. 0"] show ?thesis
    by (simp add: t)
qed
subsection \<open>Decoding\<close>







text \<open>
  Claim C2. The claim is that an input which ends in the middle of a traversal is
  answered by the empty string. The inner loop of \<open>decode\<close> also stops when the input
  is used up, with the pointer at an internal node and not null, and the character of that
  node, \<open>-64\<close>, is appended to the result. Built from \<open>abbcccc\<close> the codes are \<open>00\<close>,
  \<open>01\<close> and \<open>1\<close>, whatever the choice among equal frequencies, and \<open>0\<close> is decoded
  to the one byte \<open>0xC0\<close>.
\<close>

theorem decode_truncated:
  "encoded_chars (huffman_tree_ctor tie (Some ''abbcccc'')) =
     [(CHR ''a'', ''00''), (CHR ''b'', ''01''), (CHR ''c'', ''1'')] \<and>
   decode tie (huffman_tree_ctor tie (Some ''abbcccc'')) ''0'' = Some [CHR 0xC0]"
  by (simp add: huffman_tree_ctor_def read_file_def read_lines.simps getline_def Let_def
      count_character_def map_find_def schar_def pq_push_def new_Node_def merge_loop.simps
      merge_step_def precedes_def pq_pop_def default_Node_def decode_def decode_loop.simps
      word_sless_alt)
subsection \<open>The least cost of a prefix-free code\<close>

lemma least_add_mset: "\<forall>y \<in># M. x \<le> y \<Longrightarrow> least (add_mset x M) = x"
  by (auto simp: least_def intro: Min_eqI)

lemma drop_least_add_mset: "\<forall>y \<in># M. x \<le> y \<Longrightarrow> drop_least (add_mset x M) = M"
  by (simp add: drop_least_def least_add_mset)

lemma hcost_two_least:
  assumes "\<forall>y \<in># R. b \<le> y" and "a \<le> b"
  shows "hcost (add_mset a (add_mset b R)) = a + b + hcost (add_mset (a + b) R)"
proof -
  let ?M = "add_mset a (add_mset b R)"
  from assms have 1: "\<forall>y \<in># add_mset b R. a \<le> y" by auto
  have "least ?M = a" using 1 by (rule least_add_mset)
  moreover have d: "drop_least ?M = add_mset b R" using 1 by (rule drop_least_add_mset)
  moreover have "least (add_mset b R) = b" using assms(1) by (rule least_add_mset)
  moreover have "drop_least (add_mset b R) = R" using assms(1) by (rule drop_least_add_mset)
  ultimately have "merge_least ?M = add_mset (a + b) R" "least ?M = a" "least (drop_least ?M) = b"
    by (simp_all add: merge_least_def)
  then show ?thesis by (simp add: hcost.simps [of ?M])
qed

lemma sw_in: "a \<in> S \<Longrightarrow> x \<in> S \<Longrightarrow> s \<in> S \<Longrightarrow> sw a x s \<in> S"
  by (simp add: sw_def)

lemma sw_eq_iff: "sw a x s = sw a x t \<longleftrightarrow> s = t"
  by (auto simp: sw_def)

lemma sw_sw: "sw a x (sw a x s) = s"
  by (auto simp: sw_def)

lemma sw_first: "sw a x a = x"
  by (simp add: sw_def)

lemma sw_second: "sw a x x = a"
  by (simp add: sw_def)

lemma sw_other: "s \<noteq> a \<Longrightarrow> s \<noteq> x \<Longrightarrow> sw a x s = s"
  by (simp add: sw_def)

lemma cost_on_remove:
  "finite S \<Longrightarrow> a \<in> S \<Longrightarrow>
   cost_on S w C = w a * int (length (C a)) + cost_on (S - {a}) w C"
  by (simp add: cost_on_def sum.remove)

lemma cost_on_cong:
  "(\<And>s. s \<in> S \<Longrightarrow> w s = w' s \<and> C s = C' s) \<Longrightarrow> cost_on S w C = cost_on S w' C'"
  by (simp add: cost_on_def)

lemma swap_pf:
  assumes "prefix_free_on S C" and "a \<in> S" and "x \<in> S"
  shows "prefix_free_on S (C \<circ> sw a x)"
  unfolding prefix_free_on_def
proof (intro conjI ballI impI)
  fix s assume "s \<in> S"
  then have "sw a x s \<in> S" using assms(2,3) by (simp add: sw_in)
  with assms(1) show "binary ((C \<circ> sw a x) s)" by (simp add: prefix_free_on_def)
next
  fix s t assume st: "s \<in> S" "t \<in> S" "s \<noteq> t"
  then have "sw a x s \<in> S" "sw a x t \<in> S" "sw a x s \<noteq> sw a x t"
    using assms(2,3) by (simp_all add: sw_in sw_eq_iff)
  with assms(1) show "\<not> prefix ((C \<circ> sw a x) s) ((C \<circ> sw a x) t)"
    by (simp add: prefix_free_on_def)
qed

lemma swap_bound:
  assumes "\<forall>s \<in> S. length (C s) \<le> n" and "a \<in> S" and "x \<in> S"
  shows "\<forall>s \<in> S. length ((C \<circ> sw a x) s) \<le> n"
  using assms by (simp add: sw_in)

lemma swap_cost:
  assumes "finite S" and "a \<in> S" and "x \<in> S" and "w a \<le> w x"
    and "length (C a) \<le> length (C x)"
  shows "cost_on S w (C \<circ> sw a x) \<le> cost_on S w C"
proof (cases "a = x")
  case True
  then have "C \<circ> sw a x = C" by (auto simp: sw_def)
  then show ?thesis by simp
next
  case False
  let ?D = "C \<circ> sw a x"
  let ?R = "S - {a} - {x}"
  have x': "x \<in> S - {a}" using assms(3) False by simp
  have fin: "finite (S - {a})" using assms(1) by simp
  have c: "cost_on S w C = w a * int (length (C a)) + (w x * int (length (C x)) + cost_on ?R w C)"
    by (simp only: cost_on_remove [OF assms(1,2)] cost_on_remove [OF fin x'])
  have d: "cost_on S w ?D = w a * int (length (?D a)) + (w x * int (length (?D x)) + cost_on ?R w ?D)"
    by (simp only: cost_on_remove [OF assms(1,2)] cost_on_remove [OF fin x'])
  have r: "cost_on ?R w ?D = cost_on ?R w C"
    by (rule cost_on_cong) (simp add: sw_other)
  have "0 \<le> (w x - w a) * (int (length (C x)) - int (length (C a)))"
    using assms(4,5) by simp
  then have "w a * int (length (C x)) + w x * int (length (C a))
      \<le> w a * int (length (C a)) + w x * int (length (C x))"
    by (simp add: algebra_simps)
  then show ?thesis
    by (simp add: c d r sw_first sw_second)
qed

lemma binary_snoc: "binary (p @ [c]) \<longleftrightarrow> binary p \<and> (c = CHR ''0'' \<or> c = CHR ''1'')"
  by (auto simp: binary_def)

lemma flip_neq: "flip c \<noteq> c"
  by (simp add: flip_def)

lemma binary_two: "binary (p @ [c]) \<Longrightarrow> binary (p @ [d]) \<Longrightarrow> d = c \<or> d = flip c"
  by (auto simp: binary_snoc flip_def)

text \<open>A code word that extends \<open>p\<close> and is no longer than \<open>p\<close> and one letter.\<close>

lemma prefix_short:
  assumes "prefix p u" and "length u \<le> Suc (length p)"
  shows "u = p \<or> (\<exists>c. u = p @ [c])"
proof -
  from assms(1) obtain r where u: "u = p @ r" by (auto simp: prefix_def)
  with assms(2) have "length r \<le> 1" by simp
  then have "r = [] \<or> (\<exists>c. r = [c])" by (cases r) auto
  with u show ?thesis by auto
qed

lemma siblings_merge:
  assumes fin: "finite S" and a: "a \<in> S" and b: "b \<in> S" and ab: "a \<noteq> b"
    and pf: "prefix_free_on S C"
    and Ca: "C a = p @ [c]" and Cb: "C b = p @ [flip c]"
    and bound: "\<forall>s \<in> S. length (C s) \<le> Suc (length p)"
  shows "prefix_free_on (S - {b}) (C(a := p))"
    and "cost_on (S - {b}) (w(a := w a + w b)) (C(a := p)) + w a + w b = cost_on S w C"
proof -
  have bin: "\<And>s. s \<in> S \<Longrightarrow> binary (C s)"
    and np: "\<And>s t. s \<in> S \<Longrightarrow> t \<in> S \<Longrightarrow> s \<noteq> t \<Longrightarrow> \<not> prefix (C s) (C t)"
    using pf by (auto simp: prefix_free_on_def)
  have binp: "binary p" using bin [OF a] Ca by (simp add: binary_snoc)
  have other: "\<not> prefix p (C t) \<and> \<not> prefix (C t) p" if t: "t \<in> S" "t \<noteq> a" "t \<noteq> b" for t
  proof
    show "\<not> prefix p (C t)"
    proof
      assume "prefix p (C t)"
      from prefix_short [OF this] bound t(1)
      consider "C t = p" | d where "C t = p @ [d]" by auto
      then show False
      proof cases
        case 1
        then have "prefix (C t) (C a)" by (simp add: Ca)
        with np [OF t(1) a t(2)] show False by simp
      next
        case 2
        from bin [OF t(1)] bin [OF a] have "d = c \<or> d = flip c"
          unfolding 2 Ca by (rule binary_two [rotated])
        then have "C t = C a \<or> C t = C b" by (auto simp: 2 Ca Cb)
        with np [OF t(1) a t(2)] np [OF t(1) b t(3)] show False by auto
      qed
    qed
    show "\<not> prefix (C t) p"
    proof
      assume "prefix (C t) p"
      then have "prefix (C t) (C a)" by (simp add: Ca prefix_prefix)
      with np [OF t(1) a t(2)] show False by simp
    qed
  qed
  show "prefix_free_on (S - {b}) (C(a := p))"
    unfolding prefix_free_on_def
  proof (intro conjI ballI impI)
    fix s assume "s \<in> S - {b}"
    then show "binary ((C(a := p)) s)" using bin binp by simp
  next
    fix s t assume st: "s \<in> S - {b}" "t \<in> S - {b}" "s \<noteq> t"
    show "\<not> prefix ((C(a := p)) s) ((C(a := p)) t)"
    proof (cases "s = a")
      case True
      with st other [of t] show ?thesis by simp
    next
      case sa: False
      show ?thesis
      proof (cases "t = a")
        case True
        with st sa other [of s] show ?thesis by simp
      next
        case False
        with sa st np [of s t] show ?thesis by simp
      qed
    qed
  qed
  let ?R = "S - {a} - {b}"
  have b': "b \<in> S - {a}" using b ab by simp
  have a': "a \<in> S - {b}" using a ab by simp
  have c: "cost_on S w C = w a * int (length (C a)) + (w b * int (length (C b)) + cost_on ?R w C)"
    using cost_on_remove [OF fin a, of w C] cost_on_remove [of "S - {a}" b w C] fin b' by simp
  have "S - {b} - {a} = ?R" by auto
  then have d: "cost_on (S - {b}) (w(a := w a + w b)) (C(a := p)) =
      (w a + w b) * int (length p) + cost_on ?R (w(a := w a + w b)) (C(a := p))"
    using cost_on_remove [of "S - {b}" a "w(a := w a + w b)" "C(a := p)"] fin a' by simp
  have r: "cost_on ?R (w(a := w a + w b)) (C(a := p)) = cost_on ?R w C"
    by (rule cost_on_cong) simp
  show "cost_on (S - {b}) (w(a := w a + w b)) (C(a := p)) + w a + w b = cost_on S w C"
    by (simp add: c d r Ca Cb algebra_simps)
qed

lemma only_child:
  assumes pf: "prefix_free_on S C" and x: "x \<in> S" and Cx: "C x = p @ [c]"
    and bound: "\<forall>s \<in> S. length (C s) \<le> Suc (length p)"
    and none: "\<forall>y \<in> S. C y \<noteq> p @ [flip c]"
  shows "prefix_free_on S (C(x := p))"
proof -
  have bin: "\<And>s. s \<in> S \<Longrightarrow> binary (C s)"
    and np: "\<And>s t. s \<in> S \<Longrightarrow> t \<in> S \<Longrightarrow> s \<noteq> t \<Longrightarrow> \<not> prefix (C s) (C t)"
    using pf by (auto simp: prefix_free_on_def)
  have binp: "binary p" using bin [OF x] Cx by (simp add: binary_snoc)
  have other: "\<not> prefix p (C t) \<and> \<not> prefix (C t) p" if t: "t \<in> S" "t \<noteq> x" for t
  proof
    show "\<not> prefix p (C t)"
    proof
      assume "prefix p (C t)"
      from prefix_short [OF this] bound t(1)
      consider "C t = p" | d where "C t = p @ [d]" by auto
      then show False
      proof cases
        case 1
        then have "prefix (C t) (C x)" by (simp add: Cx)
        with np [OF t(1) x t(2)] show False by simp
      next
        case 2
        from bin [OF t(1)] bin [OF x] have "d = c \<or> d = flip c"
          unfolding 2 Cx by (rule binary_two [rotated])
        then have "C t = C x \<or> C t = p @ [flip c]" by (auto simp: 2 Cx)
        with np [OF t(1) x t(2)] none t(1) show False by auto
      qed
    qed
    show "\<not> prefix (C t) p"
    proof
      assume "prefix (C t) p"
      then have "prefix (C t) (C x)" by (simp add: Cx prefix_prefix)
      with np [OF t(1) x t(2)] show False by simp
    qed
  qed
  show ?thesis
    unfolding prefix_free_on_def
  proof (intro conjI ballI impI)
    fix s assume "s \<in> S"
    then show "binary ((C(x := p)) s)" using bin binp by simp
  next
    fix s t assume st: "s \<in> S" "t \<in> S" "s \<noteq> t"
    show "\<not> prefix ((C(x := p)) s) ((C(x := p)) t)"
    proof (cases "s = x")
      case True
      with st other [of t] show ?thesis by simp
    next
      case sx: False
      show ?thesis
      proof (cases "t = x")
        case True
        with st sx other [of s] show ?thesis by simp
      next
        case False
        with sx st np [of s t] show ?thesis by simp
      qed
    qed
  qed
qed

lemma longest_exists:
  assumes "finite S" and "S \<noteq> {}"
  obtains x where "x \<in> S" and "\<forall>s \<in> S. length (C s) \<le> length (C x)"
proof -
  let ?L = "(\<lambda>s. length (C s)) ` S"
  have "finite ?L" "?L \<noteq> {}" using assms by auto
  then have "Max ?L \<in> ?L" by (rule Max_in)
  then obtain x where x: "x \<in> S" "length (C x) = Max ?L" by auto
  have "\<forall>s \<in> S. length (C s) \<le> Max ?L" using \<open>finite ?L\<close> by auto
  with x that show ?thesis by auto
qed

lemma total_length_update:
  assumes "finite S" and "x \<in> S" and "C x = p @ [c]"
  shows "(\<Sum>s \<in> S. length ((C(x := p)) s)) < (\<Sum>s \<in> S. length (C s))"
proof -
  have "(\<Sum>s \<in> S. length ((C(x := p)) s)) = length p + (\<Sum>s \<in> S - {x}. length ((C(x := p)) s))"
    using assms(1,2) by (simp add: sum.remove)
  also have "(\<Sum>s \<in> S - {x}. length ((C(x := p)) s)) = (\<Sum>s \<in> S - {x}. length (C s))"
    by (rule sum.cong) auto
  also have "length p + \<dots> < length (C x) + (\<Sum>s \<in> S - {x}. length (C s))"
    by (simp add: assms(3))
  also have "\<dots> = (\<Sum>s \<in> S. length (C s))"
    using assms(1,2) by (simp add: sum.remove)
  finally show ?thesis .
qed

lemma cost_update_le:
  assumes "finite S" and "x \<in> S" and "C x = p @ [c]" and "0 \<le> w x"
  shows "cost_on S w (C(x := p)) \<le> cost_on S w C"
proof -
  have "cost_on (S - {x}) w (C(x := p)) = cost_on (S - {x}) w C"
    by (rule cost_on_cong) simp
  then show ?thesis
    using assms(3,4)
    by (simp add: cost_on_remove [OF assms(1,2)] algebra_simps)
qed

lemma merge_two_least:
  assumes fin: "finite S" and a: "a \<in> S" and b: "b \<in> S" and ab: "a \<noteq> b"
    and wa: "\<forall>s \<in> S. w a \<le> w s" and wb: "\<forall>s \<in> S - {a}. w b \<le> w s"
    and nonneg: "\<forall>s \<in> S. 0 \<le> w s"
    and pf: "prefix_free_on S C"
  shows "\<exists>C'. prefix_free_on (S - {b}) C' \<and>
     cost_on (S - {b}) (w(a := w a + w b)) C' + w a + w b \<le> cost_on S w C"
  using pf
proof (induction "\<Sum>s \<in> S. length (C s)" arbitrary: C rule: less_induct)
  case less
  note pf = less.prems
  have np: "\<And>s t. s \<in> S \<Longrightarrow> t \<in> S \<Longrightarrow> s \<noteq> t \<Longrightarrow> \<not> prefix (C s) (C t)"
    using pf by (auto simp: prefix_free_on_def)
  from a have "S \<noteq> {}" by auto
  from longest_exists [OF fin this, of C] obtain x where
    x: "x \<in> S" and longest: "\<forall>s \<in> S. length (C s) \<le> length (C x)" by blast
  have "C x \<noteq> []"
  proof
    assume "C x = []"
    with longest a b have "C a = []" "C b = []" by auto
    with np [OF a b ab] show False by simp
  qed
  then obtain p c where Cx: "C x = p @ [c]" by (cases "C x" rule: rev_cases) auto
  with longest have bound: "\<forall>s \<in> S. length (C s) \<le> Suc (length p)" by simp
  show ?case
  proof (cases "\<exists>y \<in> S. C y = p @ [flip c]")
    case False
    then have none: "\<forall>y \<in> S. C y \<noteq> p @ [flip c]" by simp
    let ?D = "C(x := p)"
    have "prefix_free_on S ?D" using pf x Cx bound none by (rule only_child)
    moreover have "(\<Sum>s \<in> S. length (?D s)) < (\<Sum>s \<in> S. length (C s))"
      using fin x Cx by (rule total_length_update)
    ultimately obtain C' where C': "prefix_free_on (S - {b}) C'"
      "cost_on (S - {b}) (w(a := w a + w b)) C' + w a + w b \<le> cost_on S w ?D"
      using less.hyps [of ?D] by blast
    have "cost_on S w ?D \<le> cost_on S w C"
      using fin x Cx nonneg by (intro cost_update_le) auto
    with C' show ?thesis by (intro exI [of _ C']) simp
  next
    case True
    then obtain y where y: "y \<in> S" and Cy: "C y = p @ [flip c]" by blast
    let ?C1 = "C \<circ> sw a x"
    have pf1: "prefix_free_on S ?C1" using pf a x by (rule swap_pf)
    have b1: "\<forall>s \<in> S. length (?C1 s) \<le> Suc (length p)" using bound a x by (rule swap_bound)
    have c1: "cost_on S w ?C1 \<le> cost_on S w C"
      using fin a x wa longest by (intro swap_cost) auto
    have C1a: "?C1 a = p @ [c]" by (simp add: sw_first Cx)
    let ?y1 = "sw a x y"
    have y1: "?y1 \<in> S" using a x y by (rule sw_in)
    have C1y: "?C1 ?y1 = p @ [flip c]" by (simp add: sw_sw Cy)
    have y1a: "?y1 \<noteq> a"
    proof
      assume "?y1 = a"
      with C1a C1y have "p @ [flip c] = p @ [c]" by simp
      then show False by (simp add: flip_neq)
    qed
    let ?C2 = "?C1 \<circ> sw b ?y1"
    have pf2: "prefix_free_on S ?C2" using pf1 b y1 by (rule swap_pf)
    have b2: "\<forall>s \<in> S. length (?C2 s) \<le> Suc (length p)" using b1 b y1 by (rule swap_bound)
    have "length (?C1 b) \<le> length (?C1 ?y1)" using b1 b C1y by simp
    moreover have "w b \<le> w ?y1" using wb y1 y1a by simp
    ultimately have c2: "cost_on S w ?C2 \<le> cost_on S w ?C1"
      using fin b y1 by (intro swap_cost)
    have "sw b ?y1 a = a" using ab y1a by (simp add: sw_other)
    then have C2a: "?C2 a = p @ [c]" using C1a by simp
    have C2b: "?C2 b = p @ [flip c]" using C1y by (simp add: sw_first)
    have m1: "prefix_free_on (S - {b}) (?C2(a := p))"
      using fin a b ab pf2 C2a C2b b2 by (rule siblings_merge(1))
    have m2: "cost_on (S - {b}) (w(a := w a + w b)) (?C2(a := p)) + w a + w b = cost_on S w ?C2"
      using fin a b ab pf2 C2a C2b b2 by (rule siblings_merge(2))
    from m1 m2 c1 c2 show ?thesis by (intro exI [of _ "?C2(a := p)"]) simp
  qed
qed

lemma lightest_exists:
  assumes "finite S" and "S \<noteq> {}"
  obtains a where "a \<in> S" and "\<forall>s \<in> S. (w a :: int) \<le> w s"
proof -
  have f: "finite (w ` S)" "w ` S \<noteq> {}" using assms by auto
  then have "Min (w ` S) \<in> w ` S" by (rule Min_in)
  then obtain a where a: "a \<in> S" "w a = Min (w ` S)" by auto
  have "\<forall>s \<in> S. Min (w ` S) \<le> w s" using f(1) by auto
  with a that show ?thesis by auto
qed

lemma weights_remove:
  "finite S \<Longrightarrow> a \<in> S \<Longrightarrow>
   image_mset w (mset_set S) = add_mset (w a) (image_mset w (mset_set (S - {a})))"
  by (simp add: mset_set.remove)

lemma cost_on_nonneg: "\<forall>s \<in> S. 0 \<le> w s \<Longrightarrow> 0 \<le> cost_on S w C"
  by (simp add: cost_on_def sum_nonneg)

lemma hcost_optimal:
  assumes "finite S" and "S \<noteq> {}" and "\<forall>s \<in> S. 0 \<le> w s" and "prefix_free_on S C"
  shows "hcost (image_mset w (mset_set S)) \<le> cost_on S w C"
  using assms
proof (induction "card S" arbitrary: S w C rule: less_induct)
  case less
  note fin = less.prems(1) and ne = less.prems(2) and nonneg = less.prems(3)
    and pf = less.prems(4)
  let ?M = "image_mset w (mset_set S)"
  show ?case
  proof (cases "card S \<le> 1")
    case True
    then have "size ?M \<le> 1" using fin by simp
    then have "hcost ?M = 0" by (simp add: hcost.simps [of ?M])
    with cost_on_nonneg [OF nonneg] show ?thesis by simp
  next
    case False
    from lightest_exists [OF fin ne, of w] obtain a where
      a: "a \<in> S" and wa: "\<forall>s \<in> S. w a \<le> w s" by blast
    have fin': "finite (S - {a})" using fin by simp
    have "card (S - {a}) = card S - 1" using fin a by simp
    with False have "0 < card (S - {a})" by simp
    then have ne': "S - {a} \<noteq> {}" by (auto simp: card_gt_0_iff)
    from lightest_exists [OF fin' ne', of w] obtain b where
      b': "b \<in> S - {a}" and wb: "\<forall>s \<in> S - {a}. w b \<le> w s" by blast
    then have b: "b \<in> S" and ab: "a \<noteq> b" by auto
    let ?R = "image_mset w (mset_set (S - {a} - {b}))"
    let ?w' = "w(a := w a + w b)"
    have M: "?M = add_mset (w a) (add_mset (w b) ?R)"
      by (simp only: weights_remove [OF fin a] weights_remove [OF fin' b'])
    have "\<forall>y \<in># ?R. w b \<le> y" using wb fin by auto
    moreover have "w a \<le> w b" using wa b by simp
    ultimately have h: "hcost ?M = w a + w b + hcost (add_mset (w a + w b) ?R)"
      unfolding M by (rule hcost_two_least)
    have finb: "finite (S - {b})" using fin by simp
    have ab': "a \<in> S - {b}" using a ab by simp
    have eq: "S - {b} - {a} = S - {a} - {b}" by auto
    have "image_mset ?w' (mset_set (S - {a} - {b})) = ?R"
      by (rule image_mset_cong) (use fin in auto)
    then have M': "image_mset ?w' (mset_set (S - {b})) = add_mset (w a + w b) ?R"
      by (simp add: weights_remove [OF finb ab'] eq)
    from merge_two_least [OF fin a b ab wa wb nonneg pf] obtain C' where
      C': "prefix_free_on (S - {b}) C'"
      "cost_on (S - {b}) ?w' C' + w a + w b \<le> cost_on S w C" by blast
    have "card (S - {b}) < card S" using fin b by (rule card_Diff1_less)
    moreover have "S - {b} \<noteq> {}" using ab' by auto
    moreover have "\<forall>s \<in> S - {b}. 0 \<le> ?w' s" using nonneg a b by auto
    ultimately have "hcost (image_mset ?w' (mset_set (S - {b}))) \<le> cost_on (S - {b}) ?w' C'"
      using finb C'(1) by (intro less.hyps)
    with h M' C'(2) show ?thesis by simp
  qed
qed
subsection \<open>Weighted path length\<close>

lemma paths_leaf: "paths (new_Node c f) = [([], c, sint f)]"
  by (simp add: new_Node_def)

lemma paths_merged:
  "paths (merged l r) =
     below (CHR ''0'') (paths l) @ below (CHR ''1'') (paths r)"
  by (simp add: merged_def)

lemma wpl_leaf: "wpl (new_Node c f) = 0"
  by (simp add: wpl_def paths_leaf)

lemma weight_leaf: "weight (new_Node c f) = sint f"
  by (simp add: weight_def paths_leaf)

lemma sum_deeper:
  "(\<Sum>(p, c, f)\<leftarrow>below b xs. f * int (length p)) =
   (\<Sum>(p, c, f)\<leftarrow>xs. f * int (length p)) + (\<Sum>(p, c, f)\<leftarrow>xs. f)"
  by (induction xs) (auto simp: below_def algebra_simps)

lemma sum_same:
  "(\<Sum>(p, c, f)\<leftarrow>below b xs. f) = (\<Sum>(p, c, f)\<leftarrow>xs. (f::int))"
  by (induction xs) (auto simp: below_def)

lemma map_snd_below: "map snd (below b xs) = map snd xs"
  by (induction xs) (auto simp: below_def)

lemma wpl_merged: "wpl (merged l r) = wpl l + weight l + wpl r + weight r"
  by (simp add: wpl_def weight_def paths_merged sum_deeper)

lemma weight_merged: "weight (merged l r) = weight l + weight r"
  by (simp add: weight_def paths_merged sum_same)

lemma symbols_merged: "symbols (merged l r) = symbols l @ symbols r"
  by (simp add: symbols_def paths_merged map_snd_below)

lemma wf_leaf: "wf (new_Node c f)"
  by (simp add: new_Node_def)

lemma wf_merged: "wf l \<Longrightarrow> wf r \<Longrightarrow> wf (merged l r)"
  using merged_negative [of l r] by (simp add: merged_def)

lemma merge_step_mset:
  assumes "1 < length q"
  shows "mset q = add_mset (pq_top tie q) (add_mset (pq_top tie (pq_pop tie q))
            (mset (pq_pop tie (pq_pop tie q))))"
    and "mset (merge_step tie q) =
          add_mset (merged (pq_top tie q) (pq_top tie (pq_pop tie q)))
            (mset (pq_pop tie (pq_pop tie q)))"
proof -
  from assms have q: "q \<noteq> []" by auto
  from assms have q1: "pq_pop tie q \<noteq> []" by (rule pop_nonempty)
  show "mset q = add_mset (pq_top tie q) (add_mset (pq_top tie (pq_pop tie q))
            (mset (pq_pop tie (pq_pop tie q))))"
    using mset_pop [OF q, of tie] mset_pop [OF q1, of tie] by simp
  show "mset (merge_step tie q) =
          add_mset (merged (pq_top tie q) (pq_top tie (pq_pop tie q)))
            (mset (pq_pop tie (pq_pop tie q)))"
    by (simp add: merge_step_eq pq_push_def)
qed

lemma sum_list_mset: "sum_list (map h q) = sum_mset (image_mset h (mset q))"
  by (simp only: sum_mset_sum_list [symmetric] mset_map)

lemma merge_step_invariant:
  assumes l: "1 < length q" and ok: "forest_ok q"
  shows "forest_ok (merge_step tie q)"
    and "potential (mset (merge_step tie q)) + hcost (weights (mset (merge_step tie q))) =
         potential (mset q) + hcost (weights (mset q))"
    and "forest_symbols (mset (merge_step tie q)) = forest_symbols (mset q)"
proof -
  let ?A = "pq_top tie q" and ?B = "pq_top tie (pq_pop tie q)"
  let ?q2 = "pq_pop tie (pq_pop tie q)"
  note m = merge_step_mset [OF l, of tie]
  from l have q: "q \<noteq> []" by auto
  from l have q1: "pq_pop tie q \<noteq> []" by (rule pop_nonempty)
  have A: "?A \<in> set q" using q by (rule top_in)
  have B1: "?B \<in> set (pq_pop tie q)" using q1 by (rule top_in)
  then have B: "?B \<in> set q" using set_pop by blast
  have q2: "set ?q2 \<subseteq> set q" using set_pop [of tie q] set_pop [of tie "pq_pop tie q"] by blast
  from ok A have okA: "wf ?A" "sint (frequency ?A) = weight ?A" "0 \<le> weight ?A"
    by (auto simp: forest_ok_def)
  from ok B have okB: "wf ?B" "sint (frequency ?B) = weight ?B" "0 \<le> weight ?B"
    by (auto simp: forest_ok_def)
  from ok q2 have ok2: "\<forall>t \<in> set ?q2. wf t \<and> sint (frequency t) = weight t \<and> 0 \<le> weight t"
    by (auto simp: forest_ok_def)
  have tot: "(\<Sum>t\<leftarrow>merge_step tie q. weight t) = (\<Sum>t\<leftarrow>q. weight t)"
    by (simp add: sum_list_mset m weight_merged)
  have "(\<Sum>t\<leftarrow>q. weight t) = weight ?A + weight ?B + (\<Sum>t\<leftarrow>?q2. weight t)"
    by (simp add: sum_list_mset [of weight q] m(1) sum_list_mset [of weight ?q2, symmetric])
  moreover have "0 \<le> (\<Sum>t\<leftarrow>?q2. weight t)"
    by (rule sum_list_nonneg) (use ok2 in auto)
  moreover from ok have "(\<Sum>t\<leftarrow>q. weight t) < 2 ^ 31" by (simp add: forest_ok_def)
  ultimately have small: "weight ?A + weight ?B < 2 ^ 31" by linarith
  have "sint (frequency ?A + frequency ?B) = sint (frequency ?A) + sint (frequency ?B)"
    by (rule sint_add_small) (use okA okB small in auto)
  then have fm: "sint (frequency (merged ?A ?B)) = weight ?A + weight ?B"
    by (simp add: merged_def okA okB)
  have "set (merge_step tie q) = insert (merged ?A ?B) (set ?q2)"
    by (simp add: merge_step_eq pq_push_def)
  moreover from ok have "(\<Sum>t\<leftarrow>merge_step tie q. weight t) < 2 ^ 31"
    by (simp add: tot forest_ok_def)
  ultimately show "forest_ok (merge_step tie q)"
    using ok2 okA okB by (auto simp: forest_ok_def wf_merged weight_merged fm)
  have AB: "weight ?A \<le> weight ?B"
    using top_min [OF B, of tie] by (simp add: word_sle_eq okA okB)
  have "\<forall>y \<in># weights (mset ?q2). weight ?B \<le> y"
  proof
    fix y assume "y \<in># weights (mset ?q2)"
    then obtain t where t: "t \<in> set ?q2" "y = sint (frequency t)" by (auto simp: weights_def)
    then have "t \<in> set (pq_pop tie q)" using set_pop by blast
    then have "frequency ?B \<le>s frequency t" by (rule top_min)
    with t okB show "weight ?B \<le> y" by (simp add: word_sle_eq)
  qed
  from hcost_two_least [OF this AB]
  have "hcost (weights (mset q)) =
      weight ?A + weight ?B + hcost (weights (mset (merge_step tie q)))"
    by (simp add: m weights_def fm okA okB)
  moreover have "potential (mset (merge_step tie q)) =
      potential (mset q) + weight ?A + weight ?B"
    by (simp add: m potential_def wpl_merged)
  ultimately show "potential (mset (merge_step tie q)) + hcost (weights (mset (merge_step tie q))) =
         potential (mset q) + hcost (weights (mset q))"
    by simp
  show "forest_symbols (mset (merge_step tie q)) = forest_symbols (mset q)"
    by (simp add: m forest_symbols_def symbols_merged)
qed

lemma merge_loop_invariant:
  assumes "forest_ok q" and "merge_loop tie q = [root]"
  shows "wf root \<and> wpl root = potential (mset q) + hcost (weights (mset q)) \<and>
         mset (symbols root) = forest_symbols (mset q)"
  using assms
proof (induction tie q rule: merge_loop.induct)
  case (1 tie q)
  show ?case
  proof (cases "1 < length q")
    case True
    from 1(3) True have "merge_loop tie (merge_step tie q) = [root]"
      by (simp add: merge_loop.simps [of tie q])
    from 1(1) [OF True merge_step_invariant(1) [OF True 1(2)] this]
      merge_step_invariant(2,3) [OF True 1(2), of tie]
    show ?thesis by simp
  next
    case False
    with 1(3) have q: "q = [root]" by (simp add: merge_loop.simps [of tie q])
    have "hcost (weights {#root#}) = 0" by (simp add: hcost.simps weights_def)
    with 1(2) q show ?thesis
      by (simp add: forest_ok_def potential_def forest_symbols_def)
  qed
qed

lemma leaves_of_ok:
  assumes "counts_ok m" and "(\<Sum>x\<leftarrow>m. sint (snd x)) < 2 ^ 31"
  shows "forest_ok (leaves_of m)"
proof -
  have "frequency (new_Node c f) = f" for c f by (simp add: new_Node_def)
  moreover have "0 \<le> sint (snd x)" if "x \<in> set m" for x
    using assms(1) that by (auto simp: counts_ok_def word_sless_alt)
  moreover have "(\<Sum>t\<leftarrow>leaves_of m. weight t) = (\<Sum>x\<leftarrow>m. sint (snd x))"
    by (induction m) (auto simp: leaves_of_def weight_leaf)
  ultimately show ?thesis
    using assms(2) by (auto simp: forest_ok_def leaves_of_def wf_leaf weight_leaf)
qed

lemma potential_leaves: "potential (mset (leaves_of m)) = 0"
  by (induction m) (auto simp: potential_def leaves_of_def wpl_leaf)

lemma weights_leaves: "weights (mset (leaves_of m)) = image_mset snd (mset (counts_of m))"
  by (induction m) (auto simp: weights_def leaves_of_def new_Node_def counts_of_def)

lemma symbols_leaves: "forest_symbols (mset (leaves_of m)) = mset (counts_of m)"
  by (induction m)
     (auto simp: forest_symbols_def leaves_of_def symbols_def paths_leaf counts_of_def)

lemma in_below: "(p, s) \<in> set xs \<Longrightarrow> (b # p, s) \<in> set (below b xs)"
  by (force simp: below_def)

lemma traverse_paths:
  "traverse q cd = Stopped (Some n) [] \<Longrightarrow> 0 \<le> schar (character n) \<Longrightarrow> q = Some t \<Longrightarrow> wf t \<Longrightarrow>
   (cd, character n, sint (frequency n)) \<in> set (paths t)"
proof (induction q cd arbitrary: t rule: traverse.induct)
  case (1 s)
  then show ?case by simp
next
  case (2 m)
  then have "t = n" by simp
  with 2 show ?case by (cases t) auto
next
  case (3 m b s)
  from 3(5) have mt: "m = t" by simp
  obtain c f r l where t: "t = Node c f r l" by (cases t)
  from 3(3) have neg: "schar (character m) < 0" by (auto split: if_splits)
  show ?case
  proof (cases "b = CHR ''0''")
    case True
    with 3(3) neg have tr: "traverse (left m) s = Stopped (Some n) []" by simp
    then obtain ln where ln: "left m = Some ln" by (cases "left m") auto
    with 3(6) mt t have "wf ln" by auto
    from 3(1) [OF neg True tr 3(4) ln this] ln mt t True show ?thesis
      by (auto intro: in_below)
  next
    case False
    with 3(3) neg have b1: "b = CHR ''1''" by (auto split: if_splits)
    with 3(3) neg have tr: "traverse (right m) s = Stopped (Some n) []" by simp
    then obtain rn where rn: "right m = Some rn" by (cases "right m") auto
    with 3(6) mt t have "wf rn" by auto
    from 3(2) [OF neg False b1 tr 3(4) rn this] rn mt t b1 show ?thesis
      by (auto intro: in_below)
  qed
qed

lemma leads_paths: "wf t \<Longrightarrow> leads t cd c \<Longrightarrow> \<exists>f. (cd, c, f) \<in> set (paths t)"
  using traverse_paths [of "Some t" cd _ t] by (auto simp: leads_def)

lemma cost_list_mset:
  "mset xs = mset ys \<Longrightarrow> cost_list xs code = cost_list ys code"
proof -
  assume "mset xs = mset ys"
  then have "sum_mset (image_mset (\<lambda>(c, f). f * int (length (code c))) (mset xs)) =
      sum_mset (image_mset (\<lambda>(c, f). f * int (length (code c))) (mset ys))" by simp
  then show ?thesis
    unfolding cost_list_def by (simp only: sum_mset_sum_list [symmetric] mset_map)
qed

lemma expected_length_counts: "expected_length fs code = cost_list (counts_of fs) code"
  by (simp add: expected_length_def cost_list_def counts_of_def comp_def case_prod_unfold)

lemma wpl_symbols:
  assumes "\<forall>(p, c, f) \<in> set (paths t). 0 \<le> f \<and> length (code c) \<le> length p"
  shows "cost_list (symbols t) code \<le> wpl t"
proof -
  have "cost_list (symbols t) code = (\<Sum>(p, c, f)\<leftarrow>paths t. f * int (length (code c)))"
    by (simp add: cost_list_def symbols_def comp_def case_prod_unfold)
  also have "\<dots> \<le> (\<Sum>(p, c, f)\<leftarrow>paths t. f * int (length p))"
  proof (rule sum_list_mono)
    fix x assume x: "x \<in> set (paths t)"
    obtain p c f where pcf: "x = (p, c, f)" by (cases x)
    with x assms have "0 \<le> f" "int (length (code c)) \<le> int (length p)" by auto
    then have "f * int (length (code c)) \<le> f * int (length p)" by (rule mult_left_mono [rotated])
    with pcf show "(case x of (p, c, f) \<Rightarrow> f * int (length (code c)))
        \<le> (case x of (p, c, f) \<Rightarrow> f * int (length p))" by simp
  qed
  finally show ?thesis by (simp add: wpl_def)
qed

text \<open>
  Every symbol of non-negative character at a leaf of the tree gets an entry in the
  table that \<open>encode_characters\<close> fills.
\<close>

lemma symbols_Node:
  "fst ` set (symbols (Node c f r l)) =
     (if l = None \<and> r = None then {c}
      else (case l of None \<Rightarrow> {} | Some ln \<Rightarrow> fst ` set (symbols ln)) \<union>
           (case r of None \<Rightarrow> {} | Some rn \<Rightarrow> fst ` set (symbols rn)))"
proof -
  have "set (symbols (Node c f r l)) =
     (if l = None \<and> r = None then {(c, sint f)}
      else (case l of None \<Rightarrow> {} | Some ln \<Rightarrow> set (symbols ln)) \<union>
           (case r of None \<Rightarrow> {} | Some rn \<Rightarrow> set (symbols rn)))"
    by (cases l; cases r) (simp_all add: symbols_def map_snd_below)
  then show ?thesis
    by (cases l; cases r) (simp_all add: image_Un)
qed

lemma encode_characters_covers:
  "wf t \<Longrightarrow>
   fst ` set tbl \<union> {c \<in> fst ` set (symbols t). 0 \<le> schar c}
     \<subseteq> fst ` set (encode_characters code t tbl)"
proof (induction code t tbl rule: encode_characters.induct)
  case (1 code c f r l tbl)
  show ?case
  proof (cases "0 \<le> schar c")
    case True
    with 1(3) have "l = None \<and> r = None" by auto
    with True show ?thesis by (auto simp: symbols_Node set_map_emplace)
  next
    case neg: False
    let ?e1 = "case l of None \<Rightarrow> tbl | Some ln \<Rightarrow> encode_characters (code @ ''0'') ln tbl"
    let ?e2 = "case r of None \<Rightarrow> ?e1 | Some rn \<Rightarrow> encode_characters (code @ ''1'') rn ?e1"
    have e1: "fst ` set tbl \<union>
        (case l of None \<Rightarrow> {} | Some ln \<Rightarrow> {c \<in> fst ` set (symbols ln). 0 \<le> schar c})
        \<subseteq> fst ` set ?e1"
    proof (cases l)
      case None
      then show ?thesis by simp
    next
      case (Some ln)
      with 1(3) neg have "wf ln" by auto
      from 1(1) [OF neg Some this] Some show ?thesis by simp
    qed
    have e2: "fst ` set ?e1 \<union>
        (case r of None \<Rightarrow> {} | Some rn \<Rightarrow> {c \<in> fst ` set (symbols rn). 0 \<le> schar c})
        \<subseteq> fst ` set ?e2"
    proof (cases r)
      case None
      then show ?thesis by simp
    next
      case (Some rn)
      with 1(3) neg have "wf rn" by auto
      from 1(2) [OF neg refl Some this] Some show ?thesis by simp
    qed
    have "{d \<in> fst ` set (symbols (Node c f r l)). 0 \<le> schar d} \<subseteq>
        (case l of None \<Rightarrow> {} | Some ln \<Rightarrow> {c \<in> fst ` set (symbols ln). 0 \<le> schar c}) \<union>
        (case r of None \<Rightarrow> {} | Some rn \<Rightarrow> {c \<in> fst ` set (symbols rn). 0 \<le> schar c})"
      using neg by (auto simp: symbols_Node split: option.splits if_splits)
    with e1 e2 have "fst ` set tbl \<union> {d \<in> fst ` set (symbols (Node c f r l)). 0 \<le> schar d}
        \<subseteq> fst ` set ?e2" by blast
    with neg show ?thesis by (simp add: Let_def)
  qed
qed

text \<open>The tree and the table built from more than one symbol.\<close>

lemma ctor_many_tree:
  assumes fits: "size_fits src" and many: "1 < length (read_file src)"
  obtains root where "node_queue (huffman_tree_ctor tie src) = [root]"
    and "wf root"
    and "wpl root = hcost (image_mset snd (mset (counts_of (read_file src))))"
    and "mset (symbols root) = mset (counts_of (read_file src))"
    and "encoded_chars (huffman_tree_ctor tie src) = encode_characters [] root []"
proof -
  let ?fs = "read_file src" and ?t = "huffman_tree_ctor tie src"
  from fits have fit: "counts_fit src" by (rule size_fits_counts)
  from ctor_many [OF fit many, of tie] obtain root where
    q: "node_queue ?t = [root]" and e: "encoded_chars ?t = encode_characters [] root []"
    by blast
  then have ml: "merge_loop tie (leaves_of ?fs) = [root]" by (simp add: ctor_queue [OF fit])
  have ok: "counts_ok ?fs" using fit by (rule read_file_ok)
  from many obtain s where s: "src = Some s" by (cases src) (auto simp: read_file_def)
  with fits have "int (length s) < 2 ^ 31" by (simp add: size_fits_def)
  with sum_counts [of s] fit s have "(\<Sum>x\<leftarrow>?fs. sint (snd x)) < 2 ^ 31" by simp
  with ok have "forest_ok (leaves_of ?fs)" by (rule leaves_of_ok)
  from merge_loop_invariant [OF this ml]
  have "wf root" and "wpl root = hcost (image_mset snd (mset (counts_of ?fs)))"
    and "mset (symbols root) = mset (counts_of ?fs)"
    by (simp_all add: potential_leaves weights_leaves symbols_leaves)
  with q e that show thesis by blast
qed

lemma counts_of_keys: "map fst (counts_of fs) = map fst fs"
  by (simp add: counts_of_def comp_def case_prod_unfold)

lemma ctor_many_cost:
  assumes fits: "size_fits src" and many: "1 < length (read_file src)"
  shows "expected_length (read_file src) (get_character_code (huffman_tree_ctor tie src))
     \<le> hcost (image_mset snd (mset (counts_of (read_file src))))"
proof -
  let ?fs = "read_file src" and ?t = "huffman_tree_ctor tie src"
  from fits have fit: "counts_fit src" by (rule size_fits_counts)
  from ctor_many_tree [OF fits many, of tie] obtain root where
    q: "node_queue ?t = [root]" and wf: "wf root"
    and w: "wpl root = hcost (image_mset snd (mset (counts_of ?fs)))"
    and sy: "mset (symbols root) = mset (counts_of ?fs)"
    by blast
  have ok: "counts_ok ?fs" using fit by (rule read_file_ok)
  then have "distinct (map fst (counts_of ?fs))"
    by (simp add: counts_of_keys counts_ok_def keys_sorted_distinct)
  then have "distinct (map fst (symbols root))"
    using sy by (metis mset_map mset_eq_imp_distinct_iff)
  then have inj: "inj_on (\<lambda>x. fst (snd x)) (set (paths root))"
    by (simp add: symbols_def distinct_map comp_def inj_on_def)
  have "\<forall>(p, c, f) \<in> set (paths root).
      0 \<le> f \<and> length (get_character_code ?t c) \<le> length p"
  proof (clarify, rule conjI)
    fix p c f assume pcf: "(p, c, f) \<in> set (paths root)"
    then have "(c, f) \<in> set (symbols root)" by (force simp: symbols_def)
    then have "(c, f) \<in> set (counts_of ?fs)" using sy by (metis mset_eq_setD)
    then obtain v where "(c, v) \<in> set ?fs" "f = sint v" by (auto simp: counts_of_def)
    with ok show "0 \<le> f" by (force simp: counts_ok_def word_sless_alt)
    show "length (get_character_code ?t c) \<le> length p"
    proof (cases "map_of (encoded_chars ?t) c")
      case None
      then show ?thesis by (simp add: get_character_code_def map_find_def)
    next
      case (Some cd)
      from ctor_many_entries [OF fit many q Some] have "leads root cd c" by simp
      from leads_paths [OF wf this] obtain f' where "(cd, c, f') \<in> set (paths root)" by blast
      with pcf have "(cd, c, f') = (p, c, f)"
        using inj_onD [OF inj, of "(cd, c, f')" "(p, c, f)"] by simp
      with Some show ?thesis by (simp add: get_character_code_def map_find_def)
    qed
  qed
  then have "cost_list (symbols root) (get_character_code ?t) \<le> wpl root"
    by (rule wpl_symbols)
  with w show ?thesis by (simp add: expected_length_counts cost_list_mset [OF sy])
qed

text \<open>Where no byte of the text is negative, every symbol of the frequency table has a code.\<close>

lemma ctor_many_covers:
  assumes fits: "size_fits src" and asc: "ascii src" and many: "1 < length (read_file src)"
    and c: "c \<in> fst ` set (read_file src)"
  shows "map_find (encoded_chars (huffman_tree_ctor tie src)) c \<noteq> None"
proof -
  let ?fs = "read_file src" and ?t = "huffman_tree_ctor tie src"
  from fits have fit: "counts_fit src" by (rule size_fits_counts)
  from ctor_many_tree [OF fits many, of tie] obtain root where
    wf: "wf root" and sy: "mset (symbols root) = mset (counts_of ?fs)"
    and e: "encoded_chars ?t = encode_characters [] root []"
    by blast
  from many obtain s where s: "src = Some s" by (cases src) (auto simp: read_file_def)
  with c fit have "c \<in> set s" by (simp add: read_file_keys)
  with asc s have nonneg: "0 \<le> schar c" by (simp add: ascii_def)
  from sy have "set (symbols root) = set (counts_of ?fs)" by (rule mset_eq_setD)
  then have "fst ` set (symbols root) = set (map fst (counts_of ?fs))"
    by (simp only: set_map)
  with c have "c \<in> fst ` set (symbols root)" by (simp add: counts_of_keys)
  with nonneg encode_characters_covers [OF wf, of "[]" "[]"]
  have "c \<in> fst ` set (encoded_chars ?t)" by (auto simp: e)
  then show ?thesis by (simp add: map_find_def map_of_eq_None_iff)
qed
subsection \<open>Optimality of the code table\<close>

lemma cost_list_cost_on:
  "distinct (map fst xs) \<Longrightarrow>
   cost_list xs code = cost_on (fst ` set xs) (\<lambda>c. the (map_of xs c)) code"
proof (induction xs)
  case Nil
  show ?case by (simp add: cost_list_def cost_on_def)
next
  case (Cons x xs)
  obtain c f where x: "x = (c, f)" by (cases x)
  from Cons(2) x have c: "c \<notin> fst ` set xs" and d: "distinct (map fst xs)" by auto
  have "cost_on (fst ` set xs) (\<lambda>k. the (map_of (x # xs) k)) code =
      cost_on (fst ` set xs) (\<lambda>k. the (map_of xs k)) code"
    by (rule cost_on_cong) (use c x in auto)
  with Cons(1) [OF d] c x show ?case
    by (simp add: cost_list_def cost_on_def)
qed

lemma weights_cost_on:
  "distinct (map fst xs) \<Longrightarrow>
   image_mset (\<lambda>c. the (map_of xs c)) (mset_set (fst ` set xs)) = image_mset snd (mset xs)"
proof (induction xs)
  case Nil
  show ?case by simp
next
  case (Cons x xs)
  obtain c f where x: "x = (c, f)" by (cases x)
  from Cons(2) x have c: "c \<notin> fst ` set xs" and d: "distinct (map fst xs)" by auto
  have "image_mset (\<lambda>k. the (map_of (x # xs) k)) (mset_set (fst ` set xs)) =
      image_mset (\<lambda>k. the (map_of xs k)) (mset_set (fst ` set xs))"
    by (rule image_mset_cong) (use c x in auto)
  with Cons(1) [OF d] c x show ?case by simp
qed

lemma code_table_entry:
  assumes "map_find alt c \<noteq> None"
  shows "(c, code_of alt c) \<in> set alt"
proof -
  from assms obtain cd where "map_of alt c = Some cd" by (auto simp: map_find_def)
  then show ?thesis by (auto simp: code_of_def map_find_def dest: map_of_SomeD)
qed

lemma code_table_on:
  assumes "code_table_ok alt" and "\<forall>c \<in> S. map_find alt c \<noteq> None"
  shows "prefix_free_on S (code_of alt)"
  unfolding prefix_free_on_def binary_def
proof (intro conjI ballI impI)
  fix s assume "s \<in> S"
  with assms(2) have "(s, code_of alt s) \<in> set alt" by (simp add: code_table_entry)
  with assms(1) show "set (code_of alt s) \<subseteq> {CHR ''0'', CHR ''1''}"
    unfolding code_table_ok_def by blast
next
  fix s t assume "s \<in> S" "t \<in> S" "s \<noteq> t"
  with assms(2) have "(s, code_of alt s) \<in> set alt" "(t, code_of alt t) \<in> set alt"
    by (simp_all add: code_table_entry)
  with assms(1) \<open>s \<noteq> t\<close> show "\<not> prefix (code_of alt s) (code_of alt t)"
    unfolding code_table_ok_def by blast
qed

lemma alt_cost:
  assumes d: "distinct (map fst xs)" and nonneg: "\<forall>x \<in> set xs. 0 \<le> snd x" and ne: "xs \<noteq> []"
    and pf: "code_table_ok alt" and dom: "\<forall>c \<in> fst ` set xs. map_find alt c \<noteq> None"
  shows "hcost (image_mset snd (mset xs)) \<le> cost_list xs (code_of alt)"
proof -
  let ?S = "fst ` set xs" and ?w = "\<lambda>c. the (map_of xs c)"
  have "finite ?S" "?S \<noteq> {}" using ne by auto
  moreover have "\<forall>s \<in> ?S. 0 \<le> ?w s"
  proof
    fix s assume "s \<in> ?S"
    then obtain f where "(s, f) \<in> set xs" by auto
    with d nonneg show "0 \<le> ?w s" by force
  qed
  moreover have "prefix_free_on ?S (code_of alt)" using pf dom by (rule code_table_on)
  ultimately have "hcost (image_mset ?w (mset_set ?S)) \<le> cost_on ?S ?w (code_of alt)"
    by (rule hcost_optimal)
  then show ?thesis
    by (simp add: weights_cost_on [OF d] cost_list_cost_on [OF d])
qed

text \<open>
  Claim C9. The code table built by the constructor gives a code to every symbol of the
  frequency table, and the sum over the symbols of frequency times code length is no
  larger for it than for any code table for the same symbols, that is for any
  assignment of non-empty words of \<open>0\<close> and \<open>1\<close> none of which is a prefix of another.
  The frequencies are C++ \<open>int\<close>s and \<open>char\<close> is signed: this is so for the texts of
  fewer than \<open>2^31\<close> bytes, none of them negative. A leaf of negative character is
  taken for an internal node by \<open>encode_characters\<close> and gets no code.
\<close>

theorem huffman_optimal:
  assumes "ascii src" and "size_fits src" and "code_table_ok alt"
    and "\<forall>(c, f) \<in> set (frequencies (huffman_tree_ctor tie src)). map_find alt c \<noteq> None"
  shows "(\<forall>(c, f) \<in> set (frequencies (huffman_tree_ctor tie src)).
            map_find (encoded_chars (huffman_tree_ctor tie src)) c \<noteq> None) \<and>
         expected_length (frequencies (huffman_tree_ctor tie src))
           (get_character_code (huffman_tree_ctor tie src))
         \<le> expected_length (frequencies (huffman_tree_ctor tie src)) (code_of alt)"
proof -
  let ?fs = "read_file src" and ?t = "huffman_tree_ctor tie src"
  from assms(2) have fit: "counts_fit src" by (rule size_fits_counts)
  have ok: "counts_ok ?fs" using fit by (rule read_file_ok)
  from assms(4) have dom: "\<forall>c \<in> fst ` set ?fs. map_find alt c \<noteq> None"
    by (auto simp: ctor_frequencies)
  consider "?fs = []" | "length ?fs = 1" | "1 < length ?fs"
    by (cases ?fs) (auto simp: less_Suc_eq_le Suc_le_eq)
  then have "(\<forall>c \<in> fst ` set ?fs. map_find (encoded_chars ?t) c \<noteq> None) \<and>
      expected_length ?fs (get_character_code ?t) \<le> expected_length ?fs (code_of alt)"
  proof cases
    case 1
    then show ?thesis by (simp add: expected_length_def)
  next
    case 2
    then obtain c n where f: "?fs = [(c, n)]" by (cases ?fs) auto
    with ok have n: "0 \<le> sint n" by (simp add: counts_ok_def word_sless_alt)
    from dom f have "(c, code_of alt c) \<in> set alt" by (simp add: code_table_entry)
    with assms(3) have "code_of alt c \<noteq> []" unfolding code_table_ok_def by blast
    then have "1 \<le> int (length (code_of alt c))" by (cases "code_of alt c") auto
    with n have "sint n * 1 \<le> sint n * int (length (code_of alt c))"
      by (intro mult_left_mono) auto
    then show ?thesis
      by (simp add: f expected_length_def get_character_code_def ctor_one [OF f] map_find_def)
  next
    case 3
    have "distinct (map fst (counts_of ?fs))"
      using ok by (simp add: counts_of_keys counts_ok_def keys_sorted_distinct)
    moreover have "\<forall>x \<in> set (counts_of ?fs). 0 \<le> snd x"
      using ok by (force simp: counts_of_def counts_ok_def word_sless_alt)
    moreover have "counts_of ?fs \<noteq> []" using 3 by (auto simp: counts_of_def)
    moreover have "\<forall>c \<in> fst ` set (counts_of ?fs). map_find alt c \<noteq> None"
      using dom by (simp only: set_map [symmetric] counts_of_keys) 
    ultimately have "hcost (image_mset snd (mset (counts_of ?fs)))
        \<le> cost_list (counts_of ?fs) (code_of alt)"
      using assms(3) by (intro alt_cost)
    with ctor_many_cost [OF assms(2) 3, of tie]
    have "expected_length ?fs (get_character_code ?t) \<le> expected_length ?fs (code_of alt)"
      by (simp add: expected_length_counts)
    with ctor_many_covers [OF assms(2) assms(1) 3, of _ tie] show ?thesis by blast
  qed
  then show ?thesis by (auto simp: ctor_frequencies)
qed

theorem huffman_optimal_witness:
  "ascii (Some ''abbcccc'') \<and> size_fits (Some ''abbcccc'') \<and>
   code_table_ok [(CHR ''a'', ''0''), (CHR ''b'', ''10''), (CHR ''c'', ''11'')] \<and>
   frequencies (huffman_tree_ctor (\<lambda>n. 0) (Some ''abbcccc'')) =
     [(CHR ''a'', 1), (CHR ''b'', 2), (CHR ''c'', 4)] \<and>
   encoded_chars (huffman_tree_ctor (\<lambda>n. 0) (Some ''abbcccc'')) =
     [(CHR ''a'', ''00''), (CHR ''b'', ''01''), (CHR ''c'', ''1'')] \<and>
   expected_length (frequencies (huffman_tree_ctor (\<lambda>n. 0) (Some ''abbcccc'')))
     (get_character_code (huffman_tree_ctor (\<lambda>n. 0) (Some ''abbcccc''))) = 10 \<and>
   expected_length (frequencies (huffman_tree_ctor (\<lambda>n. 0) (Some ''abbcccc'')))
     (code_of [(CHR ''a'', ''0''), (CHR ''b'', ''10''), (CHR ''c'', ''11'')]) = 13"
proof -
  let ?alt = "[(CHR ''a'', ''0''), (CHR ''b'', ''10''), (CHR ''c'', ''11'')]"
  have f: "frequencies (huffman_tree_ctor (\<lambda>n. 0) (Some ''abbcccc'')) =
      [(CHR ''a'', 1), (CHR ''b'', 2), (CHR ''c'', 4)]"
    by code_simp
  have e: "encoded_chars (huffman_tree_ctor (\<lambda>n. 0) (Some ''abbcccc'')) =
      [(CHR ''a'', ''00''), (CHR ''b'', ''01''), (CHR ''c'', ''1'')]"
    by code_simp
  have 1: "ascii (Some ''abbcccc'')" by (simp add: ascii_def schar_def)
  have 2: "size_fits (Some ''abbcccc'')" by (simp add: size_fits_def)
  have 3: "code_table_ok ?alt" by (simp add: code_table_ok_def)
  have 4: "\<forall>(c, f) \<in> set (frequencies (huffman_tree_ctor (\<lambda>n. 0) (Some ''abbcccc''))).
      map_find ?alt c \<noteq> None"
    by (simp add: f map_find_def)
  from huffman_optimal [OF 1 2 3 4] 1 2 3 show ?thesis
    by (simp add: f e expected_length_def get_character_code_def code_of_def map_find_def)
qed
end
